theory Spec2Isabelle
  imports Main "HOL-Library.Sublist" "HOL-Library.Product_Lexorder"
begin

section \<open>Ranking and unranking of unordered leaf-labelled trees\<close>

text \<open>
  A shallow embedding of \<^verbatim>\<open>python/tskit/combinatorics.py\<close>. Python's unbounded
  integers are \<^typ>\<open>int\<close>; loop counters and list positions that only count
  upwards from zero are \<^typ>\<open>nat\<close>. A Python exception is a value of
  \<^typ>\<open>'a + 'b\<close> with the exception on the left.
\<close>

subsection \<open>Exceptions\<close>

datatype error =
    AssertionError
  | IndexError
  | ValueError
  | ZeroDivisionError
  | TypeError
  | MultipleRootsError
  | NonTermination

text \<open>
  \<open>MultipleRootsError\<close> is the \<^verbatim>\<open>ValueError("Can't rank trees with multiple roots")\<close>
  of \<^verbatim>\<open>from_tsk_tree\<close>; \<open>ValueError\<close> is the one \<^verbatim>\<open>list.index\<close> raises.
  \<open>NonTermination\<close> stands for a recursion that never returns (Python would end it
  with a \<^verbatim>\<open>RecursionError\<close>).
\<close>

definition bindE :: "error + 'a \<Rightarrow> ('a \<Rightarrow> error + 'b) \<Rightarrow> error + 'b" where
  "bindE m f = (case m of Inl e \<Rightarrow> Inl e | Inr v \<Rightarrow> f v)"

lemma bindE_simps [simp]:
  "bindE (Inl e) f = Inl e" "bindE (Inr v) f = f v"
  by (simp_all add: bindE_def)

lemma bindE_cong [fundef_cong]:
  "m = m' \<Longrightarrow> (\<And>v. m' = Inr v \<Longrightarrow> f v = f' v) \<Longrightarrow> bindE m f = bindE m' f'"
  by (cases m') (simp_all)

text \<open>
  \<open>mapE f xs\<close> is a Python list comprehension or \<^verbatim>\<open>for\<close> loop whose body may raise:
  the elements are visited from left to right and the first exception ends the loop.
\<close>

fun mapE :: "('a \<Rightarrow> error + 'b) \<Rightarrow> 'a list \<Rightarrow> error + 'b list" where
  "mapE f [] = Inr []"
| "mapE f (x # xs) = bindE (f x) (\<lambda>v. bindE (mapE f xs) (\<lambda>vs. Inr (v # vs)))"

lemma mapE_cong [fundef_cong]:
  "xs = ys \<Longrightarrow> (\<And>x. x \<in> set ys \<Longrightarrow> f x = g x) \<Longrightarrow> mapE f xs = mapE g ys"
  by (induction ys arbitrary: xs) (auto simp: bindE_def split: sum.splits)

subsection \<open>Class \<^verbatim>\<open>Combination\<close>: counting\<close>

text \<open>
  \<^verbatim>\<open>comb(n, k)\<close>: \<^verbatim>\<open>k = min(k, n - k)\<close>, then the loop
  \<^verbatim>\<open>for i in range(1, k + 1): res *= n - k + i; res //= i\<close>.
  The loop is \<open>comb_loop\<close> over the list \<open>[1..k]\<close>, which is empty when \<open>k < 1\<close>,
  as the Python range is. Nothing in the function raises.
\<close>

fun comb_loop :: "int \<Rightarrow> int \<Rightarrow> int list \<Rightarrow> int \<Rightarrow> int" where
  "comb_loop n k [] res = res"
| "comb_loop n k (i # is) res = comb_loop n k is ((res * (n - k + i)) div i)"

definition comb :: "int \<Rightarrow> int \<Rightarrow> int" where
  "comb n k = (let k' = min k (n - k) in comb_loop n k' [1..k'] 1)"

definition comb_with_replacement :: "int \<Rightarrow> int \<Rightarrow> int" where
  "comb_with_replacement n k = comb (n + k - 1) k"

text \<open>
  What \<^verbatim>\<open>comb\<close> computes: the binomial coefficient when \<open>0 \<le> k \<le> n\<close>, and
  the untouched initial value \<open>1\<close> of \<^verbatim>\<open>res\<close> otherwise, because
  \<^verbatim>\<open>min(k, n - k)\<close> is negative then and the loop body never runs.
\<close>

lemma comb_loop_binomial:
  "i \<le> k \<Longrightarrow>
   comb_loop (int (a + k)) (int k) [int i + 1 .. int k] (int ((a + i) choose i)) = int ((a + k) choose k)"
proof (induction "k - i" arbitrary: i)
  case 0
  then show ?case by simp
next
  case (Suc d)
  then have lt: "i < k" and d: "d = k - Suc i" by auto
  have up: "[int i + 1 .. int k] = (int i + 1) # [int (Suc i) + 1 .. int k]"
    using lt by (simp add: upto_rec1 add.commute)
  define X where "X = (Suc (a + i) choose Suc i)"
  define Y where "Y = ((a + i) choose i)"
  have e: "Suc (a + i) * Y = X * Suc i"
    unfolding X_def Y_def by (rule Suc_times_binomial_eq)
  have "(Y * Suc (a + i)) div Suc i = X"
    unfolding mult.commute[of Y] e by (rule nonzero_mult_div_cancel_right) simp
  then have "int ((Y * Suc (a + i)) div Suc i) = int X"
    by simp
  then have "(int Y * int (Suc (a + i))) div int (Suc i) = int X"
    unfolding zdiv_int of_nat_mult .
  moreover have "int (a + k) - int k + (int i + 1) = int (Suc (a + i))" by simp
  moreover have "int i + 1 = int (Suc i)" by simp
  ultimately have step: "(int ((a + i) choose i) * (int (a + k) - int k + (int i + 1))) div (int i + 1)
      = int ((a + Suc i) choose Suc i)"
    unfolding X_def Y_def by (simp only: add_Suc_right)
  show ?case
    using Suc.hyps(1)[of "Suc i"] d lt unfolding up by (simp add: step del: of_nat_Suc of_nat_add)
qed

lemma comb_binomial_nat: "k \<le> n \<Longrightarrow> comb (int n) (int k) = int (n choose k)"
proof -
  assume le: "k \<le> n"
  define k' where "k' = min k (n - k)"
  have k': "k' \<le> n" "min (int k) (int n - int k) = int k'"
    using le by (auto simp: k'_def min_def)
  have sym: "n choose k' = n choose k"
    using binomial_symmetric[OF le] by (auto simp: k'_def min_def)
  have "comb_loop (int ((n - k') + k')) (int k') [int 0 + 1 .. int k'] (int (((n - k') + 0) choose 0))
        = int (((n - k') + k') choose k')"
    by (rule comb_loop_binomial) simp
  then show ?thesis using k' sym by (simp add: comb_def Let_def)
qed

lemma comb_out_of_range: "k < 0 \<or> n < k \<Longrightarrow> comb n k = 1"
  by (auto simp: comb_def Let_def min_def)

lemma comb_eq: "comb n k = (if 0 \<le> k \<and> k \<le> n then int (nat n choose nat k) else 1)"
  using comb_binomial_nat[of "nat k" "nat n"] comb_out_of_range[of k n] by auto

lemma comb_pos: "1 \<le> comb n k"
  using zero_less_binomial[of "nat k" "nat n"] by (auto simp add: comb_eq nat_le_eq_zle simp del: zero_less_binomial_iff)


text \<open>
  Claim C4, as amended. \<^verbatim>\<open>Combination.comb\<close> and
  \<^verbatim>\<open>Combination.comb_with_replacement\<close> check no argument and contain no
  \<^verbatim>\<open>raise\<close>; the only division is by the loop counter \<open>i \<ge> 1\<close>. So they are total
  functions here: every call returns an integer and none ends in an error. For
  \<open>0 \<le> k \<le> n\<close> the value of \<^verbatim>\<open>comb(n, k)\<close> is the binomial coefficient;
  \<^verbatim>\<open>comb_with_replacement(n, k)\<close> is \<^verbatim>\<open>comb(n + k - 1, k)\<close>, the multiset
  coefficient for \<open>k \<ge> 0\<close> and \<open>n \<ge> 1\<close>. Nothing is said about the value returned
  outside these ranges.
\<close>

theorem C4_comb_no_validation:
  "(0 \<le> k \<and> k \<le> n \<longrightarrow> comb n k = int (nat n choose nat k)) \<and>
   comb_with_replacement n k = comb (n + k - 1) k \<and>
   (0 \<le> k \<and> 1 \<le> n \<longrightarrow> comb_with_replacement n k = int (nat (n + k - 1) choose nat k))"
proof (intro conjI impI)
  assume "0 \<le> k \<and> k \<le> n"
  then show "comb n k = int (nat n choose nat k)"
    by (simp add: comb_eq)
next
  show "comb_with_replacement n k = comb (n + k - 1) k"
    by (simp add: comb_with_replacement_def)
next
  assume a: "0 \<le> k \<and> 1 \<le> n"
  then have "0 \<le> k \<and> k \<le> n + k - 1" by auto
  then show "comb_with_replacement n k = int (nat (n + k - 1) choose nat k)"
    by (simp add: comb_with_replacement_def comb_eq)
qed

theorem C4_comb_no_validation_witness:
  "((0::int) \<le> 2 \<and> (2::int) \<le> 5) \<and> comb 5 2 = 10 \<and>
   ((0::int) \<le> 2 \<and> (1::int) \<le> 5) \<and> comb_with_replacement 5 2 = 15"
proof -
  have h1: "(0::int) \<le> 2 \<and> (2::int) \<le> 5" and h2: "(0::int) \<le> 2 \<and> (1::int) \<le> 5" by simp_all
  have b1: "int (nat 5 choose nat 2) = 10"
    by (simp add: eval_nat_numeral binomial_Suc_Suc)
  have b2: "int (nat (5 + 2 - 1) choose nat 2) = 15"
    by (simp add: eval_nat_numeral binomial_Suc_Suc)
  note t = C4_comb_no_validation[of 2 5]
  have "comb 5 2 = int (nat 5 choose nat 2)" using t h1 by blast
  moreover have "comb_with_replacement 5 2 = int (nat (5 + 2 - 1) choose nat 2)" using t h2 by blast
  ultimately show ?thesis using b1 b2 by simp
qed

text \<open>
  Claim C4, as stated, fails: with \<open>k > n\<close>, with a negative \<open>n\<close> and with a negative
  \<open>k\<close> the code returns an integer instead of raising, and
  \<^verbatim>\<open>comb_with_replacement(2, 3)\<close> is the ordinary value \<open>4\<close>, although \<open>k > n\<close>.
\<close>

theorem C4_comb_counterexample:
  "comb 2 3 = 1 \<and> comb (- 1) 0 = 1 \<and> comb 3 (- 1) = 1 \<and> comb_with_replacement 2 3 = 4"
  by code_simp

subsection \<open>Class \<^verbatim>\<open>Combination\<close>: ranking and unranking\<close>

text \<open>
  \<^verbatim>\<open>elements.index(x)\<close>: the first position of \<^verbatim>\<open>x\<close>, or a \<^verbatim>\<open>ValueError\<close>.
\<close>

fun list_index :: "'a list \<Rightarrow> 'a \<Rightarrow> error + int" where
  "list_index [] x = Inl ValueError"
| "list_index (y # ys) x = (if y = x then Inr 0 else bindE (list_index ys x) (\<lambda>i. Inr (i + 1)))"

text \<open>
  \<^verbatim>\<open>from_range_rank(combination, n)\<close> calls itself with \<^verbatim>\<open>n - 1\<close> and stops when
  the combination is empty or as long as \<^verbatim>\<open>n\<close>; on a list that is no combination of
  \<^verbatim>\<open>range(n)\<close> it can recurse for ever, so it is a partial function.
  \<^verbatim>\<open>combination[0]\<close> is read only when the list is not empty.
\<close>

partial_function (option) from_range_rank :: "int list \<Rightarrow> int \<Rightarrow> int option" where
  "from_range_rank combination n =
     (let k = int (length combination) in
      if k = 0 \<or> k = n then Some 0
      else (let j = hd combination;
                combination1 = map (\<lambda>x. x - 1) combination in
        if j = 0 then from_range_rank (drop 1 combination1) (n - 1)
        else (let first_rank = comb (n - 1) (k - 1) in
          Option.bind (from_range_rank combination1 (n - 1))
            (\<lambda>rest_rank. Some (first_rank + rest_rank)))))"

declare from_range_rank.simps [code]

definition Combination_rank :: "'a list \<Rightarrow> 'a list \<Rightarrow> error + int" where
  "Combination_rank combination elements =
     bindE (mapE (list_index elements) combination) (\<lambda>indices.
       case from_range_rank indices (int (length elements)) of
         None \<Rightarrow> Inl NonTermination
       | Some r \<Rightarrow> Inr r)"

text \<open>
  \<^verbatim>\<open>Combination.unrank(rank, elements, k)\<close>. The size \<^verbatim>\<open>k\<close> is a natural number
  here: every caller passes a length or a count, and with a negative \<^verbatim>\<open>k\<close> the
  Python recursion never reaches \<^verbatim>\<open>k == 0\<close>.
\<close>

function Combination_unrank :: "int \<Rightarrow> 'a list \<Rightarrow> nat \<Rightarrow> 'a list" where
  "Combination_unrank rank elements k =
     (let n = int (length elements) in
      if k = 0 then []
      else (let n_rest_combs = comb (n - 1) (int k - 1) in
        if rank < n_rest_combs
        then take 1 elements @ Combination_unrank rank (drop 1 elements) (k - 1)
        else Combination_unrank (rank - n_rest_combs) (drop 1 elements) k))"
  by pat_completeness auto
termination
proof (relation "measure (\<lambda>(rank, elements, k). k + nat rank)")
  fix rank :: int and elements :: "'a list" and k :: nat and n x
  assume "k \<noteq> 0" "x = comb (n - 1) (int k - 1)" "\<not> rank < x"
  moreover have "1 \<le> comb (n - 1) (int k - 1)" by (rule comb_pos)
  ultimately show "((rank - x, drop 1 elements, k), rank, elements, k)
      \<in> measure (\<lambda>(rank, elements, k). k + nat rank)"
    by simp
qed auto

declare Combination_unrank.simps [simp del]

text \<open>
  \<^verbatim>\<open>with_replacement_rank(combination, n)\<close>; the loop
  \<^verbatim>\<open>for i in range(j): preceding += comb_with_replacement(n - i, k - 1)\<close> is the sum over
  \<open>[0..j - 1]\<close>.
\<close>

function with_replacement_rank :: "int list \<Rightarrow> int \<Rightarrow> int" where
  "with_replacement_rank combination n =
     (let k = int (length combination) in
      if k = 0 then 0
      else (let j = hd combination in
        if k = 1 then j
        else if j = 0 then with_replacement_rank (drop 1 combination) n
        else (let rest = map (\<lambda>x. x - j) (drop 1 combination);
                  preceding = sum_list (map (\<lambda>i. comb_with_replacement (n - i) (k - 1)) [0..j - 1])
              in preceding + with_replacement_rank rest (n - j))))"
  by pat_completeness auto
termination
  by (relation "measure (\<lambda>(combination, n). length combination)") auto

declare with_replacement_rank.simps [simp del]

text \<open>
  \<^verbatim>\<open>with_replacement_unrank(rank, n, k)\<close>. \<open>with_replacement_unrank_loop\<close> is the loop
  \<^verbatim>\<open>while rank >= preceding\<close>, where \<^verbatim>\<open>preceding\<close> is always
  \<^verbatim>\<open>comb_with_replacement(n - i, k - 1)\<close> for the current \<^verbatim>\<open>i\<close>; it returns
  \<^verbatim>\<open>rank\<close> and \<^verbatim>\<open>i\<close> as the loop leaves them.
\<close>

function with_replacement_unrank_loop :: "int \<Rightarrow> int \<Rightarrow> int \<Rightarrow> int \<Rightarrow> int \<times> int" where
  "with_replacement_unrank_loop rank n k1 i =
     (let preceding = comb_with_replacement (n - i) k1 in
      if rank \<ge> preceding then with_replacement_unrank_loop (rank - preceding) n k1 (i + 1)
      else (rank, i))"
  by pat_completeness auto
termination
proof (relation "measure (\<lambda>(rank, n, k1, i). nat rank)")
  fix rank n k1 i :: int and x
  assume "x = comb_with_replacement (n - i) k1" "x \<le> rank"
  moreover have "1 \<le> comb_with_replacement (n - i) k1"
    unfolding comb_with_replacement_def by (rule comb_pos)
  ultimately show "((rank - x, n, k1, i + 1), rank, n, k1, i) \<in> measure (\<lambda>(rank, n, k1, i). nat rank)"
    by simp
qed auto

declare with_replacement_unrank_loop.simps [simp del]

fun with_replacement_unrank :: "int \<Rightarrow> int \<Rightarrow> nat \<Rightarrow> int list" where
  "with_replacement_unrank rank n 0 = []"
| "with_replacement_unrank rank n (Suc k1) =
     (case with_replacement_unrank_loop rank n (int k1) 0 of
        (rank1, i) \<Rightarrow> [i] @ map (\<lambda>x. x + i) (with_replacement_unrank rank1 (n - i) k1))"

subsection \<open>Helpers: \<^verbatim>\<open>group_by\<close>, \<^verbatim>\<open>set_minus\<close>\<close>

text \<open>
  \<^verbatim>\<open>group_by(values, equal)\<close> walks \<^verbatim>\<open>values\<close> with the accumulators
  \<^verbatim>\<open>groups\<close> and \<^verbatim>\<open>curr_group\<close>; an element joins the current group when it
  is \<^verbatim>\<open>equal\<close> to the group's first element.
\<close>

fun group_by_loop :: "('a \<Rightarrow> 'a \<Rightarrow> bool) \<Rightarrow> 'a list \<Rightarrow> 'a list list \<Rightarrow> 'a list \<Rightarrow> 'a list list" where
  "group_by_loop equal [] groups curr_group =
     (if length curr_group \<noteq> 0 then groups @ [curr_group] else groups)"
| "group_by_loop equal (x # values) groups curr_group =
     (if length curr_group = 0 \<or> equal x (hd curr_group)
      then group_by_loop equal values groups (curr_group @ [x])
      else group_by_loop equal values (groups @ [curr_group]) [x])"

definition group_by :: "'a list \<Rightarrow> ('a \<Rightarrow> 'a \<Rightarrow> bool) \<Rightarrow> 'a list list" where
  "group_by values equal = group_by_loop equal values [] []"

definition group_partition :: "int list \<Rightarrow> int list list" where
  "group_partition part = group_by part (\<lambda>x y. x = y)"

definition set_minus :: "'a list \<Rightarrow> 'a list \<Rightarrow> 'a list" where
  "set_minus arr sub = filter (\<lambda>x. x \<notin> set sub) arr"

lemma group_by_loop_concat:
  "concat (group_by_loop eq xs gs c) = concat gs @ c @ xs"
  by (induction eq xs gs c rule: group_by_loop.induct) auto

lemma group_by_loop_nonempty:
  "[] \<notin> set gs \<Longrightarrow> [] \<notin> set (group_by_loop eq xs gs c)"
  by (induction eq xs gs c rule: group_by_loop.induct) auto

lemma group_by_concat: "concat (group_by xs eq) = xs"
  by (simp add: group_by_def group_by_loop_concat)

lemma group_by_nonempty: "g \<in> set (group_by xs eq) \<Longrightarrow> g \<noteq> []"
  using group_by_loop_nonempty[of "[]" eq xs "[]"] by (auto simp: group_by_def)

lemma group_by_subset: "g \<in> set (group_by xs eq) \<Longrightarrow> set g \<subseteq> set xs"
  using group_by_concat[of xs eq] by (metis Union_upper image_eqI set_concat)

lemma group_by_hd: "g \<in> set (group_by xs eq) \<Longrightarrow> hd g \<in> set xs"
  using group_by_subset[of g xs eq] group_by_nonempty[of g xs eq] by (cases g) auto

subsection \<open>The partition generator\<close>

text \<open>
  \<^verbatim>\<open>rule_asc(n)\<close> works on the array \<^verbatim>\<open>a\<close> of \<^verbatim>\<open>n + 1\<close> cells and the
  position \<^verbatim>\<open>k\<close>. A read or write of \<^verbatim>\<open>a\<close> outside the array raises
  \<^verbatim>\<open>IndexError\<close> (\<^verbatim>\<open>k\<close> never goes below zero, so no index wraps around).

  \<open>rule_asc_inner\<close> is the inner loop
  \<^verbatim>\<open>while x <= y: a[k] = x; y -= x; k += 1\<close>; it returns the array, \<^verbatim>\<open>k\<close>
  and \<^verbatim>\<open>y\<close> as the loop leaves them. Each round moves \<^verbatim>\<open>k\<close> up, so the array
  bound ends the loop whatever \<^verbatim>\<open>x\<close> is.
\<close>

function rule_asc_inner :: "int list \<Rightarrow> nat \<Rightarrow> int \<Rightarrow> int \<Rightarrow> error + (int list \<times> nat \<times> int)" where
  "rule_asc_inner a k x y =
     (if x \<le> y
      then (if k < length a then rule_asc_inner (a[k := x]) (k + 1) x (y - x) else Inl IndexError)
      else Inr (a, k, y))"
  by pat_completeness auto
termination
  by (relation "measure (\<lambda>(a, k, x, y). length a - k)") auto

declare rule_asc_inner.simps [simp del]

text \<open>
  \<open>rule_asc_outer\<close> is the outer loop \<^verbatim>\<open>while k != 0\<close>; \<open>acc\<close> collects the
  lists the generator has yielded so far. The loop need not end on every array, so
  the function is partial: \<open>None\<close> is a run that never returns.
\<close>

partial_function (option) rule_asc_outer ::
  "int list \<Rightarrow> nat \<Rightarrow> int list list \<Rightarrow> (error + int list list) option" where
  "rule_asc_outer a k acc =
     (if k = 0 then Some (Inr acc)
      else if length a \<le> k then Some (Inl IndexError)
      else (let x = a ! (k - 1) + 1; y = a ! k - 1 in
        case rule_asc_inner a (k - 1) x y of
          Inl e \<Rightarrow> Some (Inl e)
        | Inr (a1, k1, y1) \<Rightarrow>
            if length a1 \<le> k1 then Some (Inl IndexError)
            else (let a2 = a1[k1 := x + y1] in
              if k1 = 0 then Some (Inr acc)
              else rule_asc_outer a2 k1 (acc @ [take (k1 + 1) a2]))))"

declare rule_asc_outer.simps [code]

definition rule_asc :: "int \<Rightarrow> error + int list list" where
  "rule_asc n =
     (let a = replicate (nat (n + 1)) 0 in
      if length a \<le> 1 then Inl IndexError
      else (case rule_asc_outer (a[1 := n]) 1 [] of
              None \<Rightarrow> Inl NonTermination
            | Some r \<Rightarrow> r))"

text \<open>
  \<open>partition_asc\<close> is \<^verbatim>\<open>partition\<close> (the plain name is taken by a list function
  of the library).
\<close>

definition partition_asc :: "int \<Rightarrow> error + int list list" where
  "partition_asc n = (if n > 0 then rule_asc n else Inr [])"

subsection \<open>What the partition generator yields\<close>

text \<open>
  A reference enumeration, not taken from the code: \<open>asc_from x s\<close> lists the
  ascending sequences with sum \<open>s\<close> and all parts at least \<open>x\<close>, those that start
  with \<open>x\<close> first, then those that start with a larger part, the one-part
  sequence \<open>[s]\<close> last. \<open>lex_less\<close> is the lexicographic order on sequences.
\<close>

function asc_from :: "int \<Rightarrow> int \<Rightarrow> int list list" where
  "asc_from x s =
     (if 0 < x \<and> 2 * x \<le> s then map ((#) x) (asc_from x (s - x)) @ asc_from (x + 1) s
      else [[s]])"
  by pat_completeness auto
termination
  by (relation "measure (\<lambda>(x, s). nat (2 * s - x))") auto

declare asc_from.simps [simp del]

definition lex_less :: "int list \<Rightarrow> int list \<Rightarrow> bool" where
  "lex_less p q = ((p, q) \<in> lexord {(u, v). u < v})"

lemma asc_from_nonempty: "asc_from x s \<noteq> []"
  by (induction x s rule: asc_from.induct) (subst asc_from.simps, simp)

lemma lex_less_Cons: "lex_less (x # p) (x # q) = lex_less p q"
  by (simp add: lex_less_def)

lemma asc_from_last: "last (asc_from x s) = [s]"
  by (induction x s rule: asc_from.induct) (subst asc_from.simps, simp add: asc_from_nonempty)

lemma asc_from_set:
  "0 < x \<Longrightarrow> x \<le> s \<Longrightarrow>
   set (asc_from x s) = {p. p \<noteq> [] \<and> sorted p \<and> (\<forall>v\<in>set p. x \<le> v) \<and> sum_list p = s}"
proof (induction x s rule: asc_from.induct)
  case (1 x s)
  show ?case
  proof (cases "2 * x \<le> s")
    case True
    have ih1: "set (asc_from x (s - x)) = {p. p \<noteq> [] \<and> sorted p \<and> (\<forall>v\<in>set p. x \<le> v) \<and> sum_list p = s - x}"
      using 1 True by simp
    have ih2: "set (asc_from (x + 1) s) = {p. p \<noteq> [] \<and> sorted p \<and> (\<forall>v\<in>set p. x + 1 \<le> v) \<and> sum_list p = s}"
      using 1 True by simp
    have eq: "set (asc_from x s) = ((#) x) ` set (asc_from x (s - x)) \<union> set (asc_from (x + 1) s)"
      using 1(3) True by (subst asc_from.simps) simp
    show ?thesis
    proof (rule set_eqI, rule iffI)
      fix p assume "p \<in> set (asc_from x s)"
      then show "p \<in> {p. p \<noteq> [] \<and> sorted p \<and> (\<forall>v\<in>set p. x \<le> v) \<and> sum_list p = s}"
        unfolding eq ih1 ih2 by (auto simp: less_imp_le)
    next
      fix p assume "p \<in> {p. p \<noteq> [] \<and> sorted p \<and> (\<forall>v\<in>set p. x \<le> v) \<and> sum_list p = s}"
      then have p: "p \<noteq> []" "sorted p" "\<forall>v\<in>set p. x \<le> v" "sum_list p = s" by auto
      then obtain h q where pq: "p = h # q" by (cases p) auto
      show "p \<in> set (asc_from x s)"
      proof (cases "h = x")
        case True
        have "q \<noteq> []" using p(4) pq True \<open>2 * x \<le> s\<close> 1(3) by auto
        then have "q \<in> set (asc_from x (s - x))"
          unfolding ih1 using p pq True by auto
        then show ?thesis unfolding eq pq True by simp
      next
        case False
        then have "x + 1 \<le> h" using p(3) pq by auto
        then have "\<forall>v\<in>set p. x + 1 \<le> v" using p(2) pq by fastforce
        then show ?thesis unfolding eq ih2 using p by simp
      qed
    qed
  next
    case False
    have eq: "asc_from x s = [[s]]" using False by (subst asc_from.simps) simp
    have "p = [s]" if p: "p \<noteq> []" "\<forall>v\<in>set p. x \<le> v" "sum_list p = s" for p
    proof (cases p)
      case Nil then show ?thesis using p by simp
    next
      case (Cons h q)
      show ?thesis
      proof (cases q)
        case Nil then show ?thesis using Cons p by simp
      next
        case (Cons h' q')
        have "0 \<le> sum_list q'" using p(2) \<open>p = h # q\<close> Cons 1(3) by (intro sum_list_nonneg) auto
        then show ?thesis using p \<open>p = h # q\<close> Cons False by auto
      qed
    qed
    then show ?thesis unfolding eq using 1(3,4) by auto
  qed
qed

lemma asc_from_sorted: "0 < x \<Longrightarrow> x \<le> s \<Longrightarrow> sorted_wrt lex_less (asc_from x s)"
proof (induction x s rule: asc_from.induct)
  case (1 x s)
  show ?case
  proof (cases "2 * x \<le> s")
    case True
    have s1: "sorted_wrt lex_less (asc_from x (s - x))" and s2: "sorted_wrt lex_less (asc_from (x + 1) s)"
      using 1 True by simp_all
    have m: "sorted_wrt lex_less (map ((#) x) (asc_from x (s - x)))"
      using s1 by (simp add: sorted_wrt_map lex_less_Cons)
    have cross: "lex_less p q" if "p \<in> set (map ((#) x) (asc_from x (s - x)))" "q \<in> set (asc_from (x + 1) s)" for p q
    proof -
      from that(2) have "q \<noteq> [] \<and> (\<forall>v\<in>set q. x + 1 \<le> v)"
        using asc_from_set[of "x + 1" s] 1(3) True by auto
      then obtain h q' where "q = h # q'" "x < h" by (cases q) auto
      then show ?thesis using that(1) by (auto simp: lex_less_def)
    qed
    show ?thesis
      using 1(3) True m s2 cross by (subst asc_from.simps) (simp add: sorted_wrt_append)
  next
    case False
    then show ?thesis by (subst asc_from.simps) simp
  qed
qed


lemma asc_from_hd_step:
  "0 < x \<Longrightarrow> 2 * x \<le> s \<Longrightarrow> hd (asc_from x s) = x # hd (asc_from x (s - x))"
  by (subst asc_from.simps) (simp add: asc_from_nonempty hd_append hd_map)

lemma asc_from_single: "\<not> (0 < x \<and> 2 * x \<le> s) \<Longrightarrow> asc_from x s = [[s]]"
  by (subst asc_from.simps) auto

lemma asc_from_hd_in: "hd (asc_from x s) \<in> set (asc_from x s)"
  by (simp add: asc_from_nonempty)

lemma asc_from_length_le:
  assumes "0 < x" "x \<le> s" "p \<in> set (asc_from x s)"
  shows "int (length p) \<le> s" "p \<noteq> []"
proof -
  have p: "p \<noteq> []" "\<forall>v\<in>set p. x \<le> v" "sum_list p = s"
    using assms asc_from_set[of x s] by auto
  have "int (length p) \<le> sum_list p"
    using p(2) assms(1) by (induction p) fastforce+
  then show "int (length p) \<le> s" "p \<noteq> []" using p by auto
qed

lemma rule_asc_inner_fill:
  "0 < x \<Longrightarrow> 0 \<le> y \<Longrightarrow> k + length (hd (asc_from x (x + y))) \<le> length a \<Longrightarrow>
   \<exists>a1 k1 y1. rule_asc_inner a k x y = Inr (a1, k1, y1) \<and> length a1 = length a \<and>
     take k1 a1 @ [x + y1] = take k a @ hd (asc_from x (x + y)) \<and>
     k1 + 1 = k + length (hd (asc_from x (x + y)))"
proof (induction a k x y rule: rule_asc_inner.induct)
  case (1 a k x y)
  show ?case
  proof (cases "x \<le> y")
    case True
    have hd: "hd (asc_from x (x + y)) = x # hd (asc_from x y)"
      using asc_from_hd_step[of x "x + y"] 1(2) True by simp
    have k: "k < length a" using 1(4) hd by simp
    have "\<exists>a1 k1 y1. rule_asc_inner (a[k := x]) (k + 1) x (y - x) = Inr (a1, k1, y1) \<and>
        length a1 = length (a[k := x]) \<and>
        take k1 a1 @ [x + y1] = take (k + 1) (a[k := x]) @ hd (asc_from x (x + (y - x))) \<and>
        k1 + 1 = k + 1 + length (hd (asc_from x (x + (y - x))))"
      using 1(1)[OF True k] 1(2-4) True hd by simp
    then obtain a1 k1 y1 where r: "rule_asc_inner (a[k := x]) (k + 1) x (y - x) = Inr (a1, k1, y1)"
      "length a1 = length a" "take k1 a1 @ [x + y1] = take (k + 1) (a[k := x]) @ hd (asc_from x y)"
      "k1 + 1 = k + 1 + length (hd (asc_from x y))" by auto
    have t: "take (k + 1) (a[k := x]) = take k a @ [x]"
      using k by (simp add: take_Suc_conv_app_nth)
    show ?thesis
      apply (subst rule_asc_inner.simps)
      using True k r t hd by simp
  next
    case False
    have "asc_from x (x + y) = [[x + y]]" using False 1(2) by (intro asc_from_single) simp
    then show ?thesis
      apply (subst rule_asc_inner.simps)
      using False by simp
  qed
qed


lemma rule_asc_outer_step:
  assumes k: "k = length pre + 1" and tk: "take (k + 1) a = pre @ [u, v]"
    and u: "0 \<le> u" and v: "1 \<le> v"
    and H: "H = hd (asc_from (u + 1) (u + v))"
    and room: "length pre + length H \<le> length a"
  shows "\<exists>a2. length a2 = length a \<and> take (length pre + length H) a2 = pre @ H \<and>
     rule_asc_outer a k acc =
       (if length pre + length H = 1 then Some (Inr acc)
        else rule_asc_outer a2 (length pre + length H - 1) (acc @ [pre @ H]))"
proof -
  have "length (take (k + 1) a) = length pre + 2" using tk by simp
  then have ka: "k < length a" using k by (simp split: if_splits add: min_def)
  have "a ! (k - 1) = take (k + 1) a ! (k - 1)" "a ! k = take (k + 1) a ! k" by simp_all
  then have au: "a ! (k - 1) = u" and av: "a ! k = v"
    unfolding tk using k by (simp_all add: nth_append)
  have pre: "take (k - 1) a = pre"
  proof -
    have "min (k - 1) (k + 1) = k - 1" by simp
    then have "take (k - 1) a = take (k - 1) (take (k + 1) a)" by (simp del: One_nat_def)
    then show ?thesis unfolding tk using k by simp
  qed
  have "\<exists>a1 k1 y1. rule_asc_inner a (k - 1) (u + 1) (v - 1) = Inr (a1, k1, y1) \<and> length a1 = length a \<and>
     take k1 a1 @ [(u + 1) + y1] = take (k - 1) a @ hd (asc_from (u + 1) ((u + 1) + (v - 1))) \<and>
     k1 + 1 = (k - 1) + length (hd (asc_from (u + 1) ((u + 1) + (v - 1))))"
    using u v room k H by (intro rule_asc_inner_fill) simp_all
  then obtain a1 k1 y1 where r: "rule_asc_inner a (k - 1) (u + 1) (v - 1) = Inr (a1, k1, y1)"
    "length a1 = length a" "take k1 a1 @ [(u + 1) + y1] = pre @ H" "k1 + 1 = length pre + length H"
    using pre H k by auto
  define a2 where "a2 = a1[k1 := u + 1 + y1]"
  have k1: "k1 < length a1" using r(2,4) room by simp
  have t2: "take (length pre + length H) a2 = pre @ H"
    using r(3,4) k1 unfolding a2_def
    by (metis Suc_eq_plus1 take_Suc_conv_app_nth length_list_update nth_list_update_eq take_update_cancel order_refl)
  have l2: "length a2 = length a" using r(2) by (simp add: a2_def)
  have "rule_asc_outer a k acc =
       (if length pre + length H = 1 then Some (Inr acc)
        else rule_asc_outer a2 (length pre + length H - 1) (acc @ [pre @ H]))"
  proof -
    have k1eq: "length pre + length H - 1 = k1" using r(4) by simp
    show ?thesis
      apply (subst rule_asc_outer.simps)
      unfolding k1eq
      using k ka au av r k1 t2 by (auto simp: Let_def a2_def)
  qed
  then show ?thesis using t2 l2 by blast
qed


lemma asc_from_two:
  assumes "0 < x" "length (hd (asc_from x s)) \<noteq> 1"
  shows "tl (asc_from x s) \<noteq> []"
proof (cases "2 * x \<le> s")
  case True
  have "asc_from x s = map ((#) x) (asc_from x (s - x)) @ asc_from (x + 1) s"
    using True assms(1) by (subst asc_from.simps) simp
  then show ?thesis
    using asc_from_nonempty[of x "s - x"] asc_from_nonempty[of "x + 1" s]
    by (cases "asc_from x (s - x)") auto
next
  case False
  then have "asc_from x s = [[s]]" by (intro asc_from_single) simp
  then show ?thesis using assms(2) by simp
qed

lemma asc_from_one:
  assumes "0 < x" "x \<le> s" "length (hd (asc_from x s)) = 1"
  shows "asc_from x s = [[s]]"
proof (cases "2 * x \<le> s")
  case True
  have "hd (asc_from x (s - x)) \<noteq> []"
    using asc_from_length_le(2)[OF _ _ asc_from_hd_in, of x "s - x"] True assms(1) by simp
  then show ?thesis using asc_from_hd_step[OF assms(1) True] assms(3) by simp
next
  case False
  then show ?thesis by (intro asc_from_single) simp
qed

lemma rule_asc_outer_run:
  "0 < x \<Longrightarrow> x \<le> s \<Longrightarrow>
   take (length pre + length (hd (asc_from x s))) a = pre @ hd (asc_from x s) \<Longrightarrow>
   int (length pre) + s \<le> int (length a) \<Longrightarrow>
   (pre \<noteq> [] \<longrightarrow> (\<exists>a'. length a' = length a \<and> take (length pre + 1) a' = pre @ [s] \<and>
       rule_asc_outer a (length pre + length (hd (asc_from x s)) - 1) acc =
       rule_asc_outer a' (length pre) (acc @ map ((@) pre) (tl (asc_from x s))))) \<and>
   (pre = [] \<longrightarrow> rule_asc_outer a (length (hd (asc_from x s)) - 1) acc =
       Some (Inr (acc @ butlast (tl (asc_from x s)))))"
proof (induction x s arbitrary: pre a acc rule: asc_from.induct)
  case (1 x s)
  show ?case
  proof (cases "2 * x \<le> s")
    case False
    then have eq: "asc_from x s = [[s]]" by (intro asc_from_single) simp
    have "rule_asc_outer a 0 acc = Some (Inr acc)"
      by (subst rule_asc_outer.simps) simp
    then show ?thesis using 1(5) unfolding eq by auto
  next
    case True
    define A1 where "A1 = asc_from x (s - x)"
    define A2 where "A2 = asc_from (x + 1) s"
    define H1 where "H1 = hd A1"
    define H2 where "H2 = hd A2"
    have A: "asc_from x s = map ((#) x) A1 @ A2"
      using True 1(3) unfolding A1_def A2_def by (subst asc_from.simps) simp
    have A1ne: "A1 \<noteq> []" and A2ne: "A2 \<noteq> []"
      unfolding A1_def A2_def by (rule asc_from_nonempty)+
    have hd: "hd (asc_from x s) = x # H1"
      using asc_from_hd_step[OF 1(3) True] by (simp add: H1_def A1_def)
    have tl: "tl (asc_from x s) = map ((#) x) (tl A1) @ H2 # tl A2"
      unfolding A using A1ne A2ne by (cases A1) (auto simp: H2_def)
    have xs: "x + 1 \<le> s" "x \<le> s - x" "1 \<le> s - x" using True 1(3) by auto
    have H2len: "int (length H2) \<le> s" "H2 \<noteq> []"
      using asc_from_length_le[OF _ xs(1) asc_from_hd_in] 1(3) by (simp_all add: H2_def A2_def)
    \<comment> \<open>the block of partitions that start with x\<close>
    have "\<exists>a'. length a' = length a \<and> take (length (pre @ [x]) + 1) a' = (pre @ [x]) @ [s - x] \<and>
       rule_asc_outer a (length (pre @ [x]) + length (hd (asc_from x (s - x))) - 1) acc =
       rule_asc_outer a' (length (pre @ [x])) (acc @ map ((@) (pre @ [x])) (tl (asc_from x (s - x))))"
    proof -
      have "take (length (pre @ [x]) + length (hd (asc_from x (s - x)))) a = (pre @ [x]) @ hd (asc_from x (s - x))"
        using 1(5) hd by (simp add: H1_def A1_def)
      moreover have "int (length (pre @ [x])) + (s - x) \<le> int (length a)"
        using 1(6) 1(3) by simp
      ultimately show ?thesis
        using 1(1)[of "pre @ [x]" a acc] 1(3) True xs by blast
    qed
    then obtain a' where a': "length a' = length a" "take (length pre + 1 + 1) a' = pre @ [x, s - x]"
       "rule_asc_outer a (length pre + length (hd (asc_from x s)) - 1) acc =
        rule_asc_outer a' (length pre + 1) (acc @ map ((@) (pre @ [x])) (tl A1))"
      unfolding hd by (auto simp: A1_def H1_def)
    define acc1 where "acc1 = acc @ map ((@) (pre @ [x])) (tl A1)"
    \<comment> \<open>one round of the loop moves on to the first partition that starts with x + 1\<close>
    have "\<exists>a2. length a2 = length a' \<and> take (length pre + length H2) a2 = pre @ H2 \<and>
       rule_asc_outer a' (length pre + 1) acc1 =
       (if length pre + length H2 = 1 then Some (Inr acc1)
        else rule_asc_outer a2 (length pre + length H2 - 1) (acc1 @ [pre @ H2]))"
    proof (rule rule_asc_outer_step[where u = x and v = "s - x"])
      show "length pre + 1 = length pre + 1" by simp
      show "take (length pre + 1 + 1) a' = pre @ [x, s - x]" by (rule a'(2))
      show "0 \<le> x" using 1(3) by simp
      show "1 \<le> s - x" by (rule xs(3))
      show "H2 = hd (asc_from (x + 1) (x + (s - x)))" by (simp add: H2_def A2_def)
      show "length pre + length H2 \<le> length a'" using H2len(1) 1(6) a'(1) by linarith
    qed
    then obtain a2 where a2: "length a2 = length a" "take (length pre + length H2) a2 = pre @ H2"
       "rule_asc_outer a' (length pre + 1) acc1 =
       (if length pre + length H2 = 1 then Some (Inr acc1)
        else rule_asc_outer a2 (length pre + length H2 - 1) (acc1 @ [pre @ H2]))"
      using a'(1) by auto
    \<comment> \<open>the partitions that start with x + 1 or more\<close>
    have ih2: "(pre \<noteq> [] \<longrightarrow> (\<exists>a''. length a'' = length a2 \<and> take (length pre + 1) a'' = pre @ [s] \<and>
       rule_asc_outer a2 (length pre + length (hd (asc_from (x + 1) s)) - 1) (acc1 @ [pre @ H2]) =
       rule_asc_outer a'' (length pre) ((acc1 @ [pre @ H2]) @ map ((@) pre) (tl (asc_from (x + 1) s))))) \<and>
      (pre = [] \<longrightarrow> rule_asc_outer a2 (length (hd (asc_from (x + 1) s)) - 1) (acc1 @ [pre @ H2]) =
       Some (Inr ((acc1 @ [pre @ H2]) @ butlast (tl (asc_from (x + 1) s)))))"
    proof (rule 1(2))
      show "0 < x \<and> 2 * x \<le> s" using 1(3) True by simp
      show "0 < x + 1" using 1(3) by simp
      show "x + 1 \<le> s" by (rule xs(1))
      show "take (length pre + length (hd (asc_from (x + 1) s))) a2 = pre @ hd (asc_from (x + 1) s)"
        using a2(2) by (simp add: H2_def A2_def)
      show "int (length pre) + s \<le> int (length a2)" using 1(6) a2(1) by simp
    qed
    have mp: "((@) pre \<circ> (#) x) = (@) (pre @ [x])" by (rule ext) simp
    show ?thesis
    proof (intro conjI impI)
      assume ne: "pre \<noteq> []"
      then have n1: "length pre + length H2 \<noteq> 1" using H2len(2) by (cases pre; cases H2) auto
      from ih2 ne obtain a'' where a'': "length a'' = length a" "take (length pre + 1) a'' = pre @ [s]"
        "rule_asc_outer a2 (length pre + length H2 - 1) (acc1 @ [pre @ H2]) =
         rule_asc_outer a'' (length pre) ((acc1 @ [pre @ H2]) @ map ((@) pre) (tl A2))"
        using a2(1) by (auto simp: H2_def A2_def)
      have "rule_asc_outer a (length pre + length (hd (asc_from x s)) - 1) acc =
            rule_asc_outer a'' (length pre) (acc @ map ((@) pre) (tl (asc_from x s)))"
        unfolding a'(3) acc1_def[symmetric] a2(3) tl using n1 a''(3)
        by (simp add: acc1_def mp)
      then show "\<exists>a'. length a' = length a \<and> take (length pre + 1) a' = pre @ [s] \<and>
          rule_asc_outer a (length pre + length (hd (asc_from x s)) - 1) acc =
          rule_asc_outer a' (length pre) (acc @ map ((@) pre) (tl (asc_from x s)))"
        using a''(1,2) by blast
    next
      assume e: "pre = []"
      show "rule_asc_outer a (length (hd (asc_from x s)) - 1) acc =
          Some (Inr (acc @ butlast (tl (asc_from x s))))"
      proof (cases "length H2 = 1")
        case True
        then have "A2 = [[s]]"
          using asc_from_one[of "x + 1" s] xs(1) 1(3) by (simp add: H2_def A2_def)
        then have "butlast (tl (asc_from x s)) = map ((#) x) (tl A1)"
          unfolding A using A1ne by (cases A1) (auto simp: butlast_append)
        then show ?thesis
          using a'(3) a2(3) True e by (simp add: acc1_def)
      next
        case False
        have "tl A2 \<noteq> []" using asc_from_two[of "x + 1" s] False 1(3) by (simp add: H2_def A2_def)
        then have "butlast (tl (asc_from x s)) = map ((#) x) (tl A1) @ H2 # butlast (tl A2)"
          unfolding tl by (simp add: butlast_append)
        then show ?thesis
          using a'(3) a2(3) False e ih2 by (simp add: acc1_def H2_def A2_def)
      qed
    qed
  qed
qed


lemma rule_asc_eq:
  assumes n: "0 < n"
  shows "rule_asc n = Inr (butlast (asc_from 1 n))"
proof -
  define a where "a = (replicate (nat (n + 1)) (0::int))[1 := n]"
  define H where "H = hd (asc_from 1 n)"
  have la: "length a = nat (n + 1)" by (simp add: a_def)
  have "nat (n + 1) = Suc (Suc (nat (n - 1)))" using n by simp
  then have "a = 0 # n # replicate (nat (n - 1)) 0"
    by (simp add: a_def)
  then have t2: "take (0 + 1 + 1) a = [] @ [0, n]"
    by simp
  have Hlen: "int (length H) \<le> n" "H \<noteq> []"
    using asc_from_length_le[OF _ _ asc_from_hd_in, of 1 n] n by (simp_all add: H_def)
  have "\<exists>a2. length a2 = length a \<and> take (length ([]::int list) + length H) a2 = [] @ H \<and>
       rule_asc_outer a (0 + 1) [] =
       (if length ([]::int list) + length H = 1 then Some (Inr [])
        else rule_asc_outer a2 (length ([]::int list) + length H - 1) ([] @ [[] @ H]))"
  proof (rule rule_asc_outer_step[where u = 0 and v = n])
    show "0 + 1 = length ([]::int list) + 1" by simp
    show "take (0 + 1 + 1) a = [] @ [0, n]" by (rule t2)
    show "(0::int) \<le> 0" by simp
    show "1 \<le> n" using n by simp
    show "H = hd (asc_from (0 + 1) (0 + n))" by (simp add: H_def)
    show "length ([]::int list) + length H \<le> length a" using Hlen la by simp
  qed
  then obtain a2 where a2: "length a2 = length a" "take (length H) a2 = H"
     "rule_asc_outer a 1 [] =
       (if length H = 1 then Some (Inr []) else rule_asc_outer a2 (length H - 1) [H])"
    by auto
  have out: "rule_asc_outer a 1 [] = Some (Inr (butlast (asc_from 1 n)))"
  proof (cases "length H = 1")
    case True
    then have "asc_from 1 n = [[n]]" using asc_from_one[of 1 n] n by (simp add: H_def)
    then show ?thesis using a2(3) True by simp
  next
    case False
    have tl: "tl (asc_from 1 n) \<noteq> []" using asc_from_two[of 1 n] False by (simp add: H_def)
    have "asc_from 1 n = H # tl (asc_from 1 n)"
      using asc_from_nonempty[of 1 n] by (simp add: H_def)
    then have bl: "butlast (asc_from 1 n) = H # butlast (tl (asc_from 1 n))"
      using tl by (metis butlast.simps(2))
    have "rule_asc_outer a2 (length (hd (asc_from 1 n)) - 1) [H] =
       Some (Inr ([H] @ butlast (tl (asc_from 1 n))))"
      using rule_asc_outer_run[of 1 n "[]" a2 "[H]"] n a2(1,2) la by (simp add: H_def)
    then show ?thesis using a2(3) False bl by (simp add: H_def)
  qed
  have "1 < length a" using la n by simp
  then show ?thesis
    unfolding rule_asc_def Let_def a_def[symmetric] using out la
    by (simp add: a_def)
qed

lemma partition_eq: "partition_asc n = Inr (if 0 < n then butlast (asc_from 1 n) else [])"
  by (simp add: partition_asc_def rule_asc_eq)


text \<open>
  An ascending sequence of positive integers with sum \<open>n\<close>, other than \<open>[n]\<close>: the
  partitions of the specification.
\<close>

definition is_partition_of :: "int \<Rightarrow> int list \<Rightarrow> bool" where
  "is_partition_of n p = (sorted p \<and> (\<forall>v\<in>set p. 0 < v) \<and> sum_list p = n \<and> p \<noteq> [n])"

lemma lex_less_irrefl: "\<not> lex_less p p"
  by (simp add: lex_less_def lexord_irreflexive)

lemma sorted_wrt_lex_less_distinct: "sorted_wrt lex_less ps \<Longrightarrow> distinct ps"
  by (induction ps) (auto simp: lex_less_irrefl)

lemma partition_set:
  assumes n: "0 < n"
  shows "set (butlast (asc_from 1 n)) = {p. is_partition_of n p}"
proof -
  define A where "A = asc_from 1 n"
  have A: "A = butlast A @ [[n]]"
    using asc_from_nonempty[of 1 n] asc_from_last[of 1 n] unfolding A_def
    by (metis append_butlast_last_id)
  have "distinct A"
    using asc_from_sorted[of 1 n] n by (simp add: A_def sorted_wrt_lex_less_distinct)
  then have "distinct (butlast A @ [[n]])" using A by simp
  then have notin: "[n] \<notin> set (butlast A)" by simp
  have "set A = set (butlast A) \<union> {[n]}" by (subst A) simp
  then have "set (butlast A) = set A - {[n]}" using notin by auto
  moreover have "set A = {p. p \<noteq> [] \<and> sorted p \<and> (\<forall>v\<in>set p. 1 \<le> v) \<and> sum_list p = n}"
    unfolding A_def using n by (intro asc_from_set) simp_all
  moreover have "(1 \<le> v) = (0 < v)" for v :: int by auto
  ultimately show ?thesis
    using n unfolding A_def is_partition_of_def by auto
qed

lemma partition_sorted: "0 < n \<Longrightarrow> sorted_wrt lex_less (butlast (asc_from 1 n))"
proof -
  assume n: "0 < n"
  have "asc_from 1 n = butlast (asc_from 1 n) @ [last (asc_from 1 n)]"
    using asc_from_nonempty[of 1 n] by simp
  then have "sorted_wrt lex_less (butlast (asc_from 1 n) @ [last (asc_from 1 n)])"
    using asc_from_sorted[of 1 n] n by simp
  then show ?thesis unfolding sorted_wrt_append by simp
qed

text \<open>
  Claim C7. For every \<open>n > 1\<close>, \<^verbatim>\<open>partition(n)\<close> returns (so the generated sequence is
  finite), and the lists it yields are exactly the ascending sequences of positive
  integers with sum \<open>n\<close> other than \<open>[n]\<close>, each once, in strictly increasing
  lexicographic order.
\<close>

theorem C7_partition_ascending_compositions:
  "1 < n \<Longrightarrow>
   \<exists>ps. partition_asc n = Inr ps \<and> set ps = {p. is_partition_of n p} \<and> sorted_wrt lex_less ps"
  using partition_eq[of n] partition_set[of n] partition_sorted[of n] by simp

theorem C7_partition_witness:
  "(1::int) < 4 \<and> partition_asc 4 = Inr [[1, 1, 1, 1], [1, 1, 2], [1, 3], [2, 2]] \<and>
   set [[1, 1, 1, 1], [1, 1, 2], [1, 3], [2, 2]] = {p. is_partition_of 4 p} \<and>
   sorted_wrt lex_less [[1, 1, 1, 1], [1, 1, 2], [1, 3], [2, 2 :: int]]"
proof -
  have e: "partition_asc 4 = Inr [[1, 1, 1, 1], [1, 1, 2], [1, 3], [2, 2]]" by code_simp
  have "(1::int) < 4" by simp
  from C7_partition_ascending_compositions[OF this] show ?thesis
    unfolding e by simp
qed

lemma sum_list_pos_parts:
  "\<forall>u\<in>set xs. (0::int) < u \<Longrightarrow> 0 \<le> sum_list xs \<and> (xs \<noteq> [] \<longrightarrow> 0 < sum_list xs)"
  by (induction xs) auto

lemma partition_parts:
  assumes "partition_asc n = Inr ps" "part \<in> set ps" "v \<in> set part"
  shows "0 < v" "v < n"
proof -
  have n: "0 < n" using assms(1,2) by (auto simp: partition_eq split: if_splits)
  then have p: "is_partition_of n part" using assms(1,2) partition_set[of n] by (auto simp: partition_eq)
  then show "0 < v" using assms(3) by (auto simp: is_partition_of_def)
  obtain xs ys where part: "part = xs @ v # ys" using assms(3) by (meson split_list)
  have pos: "\<forall>u\<in>set part. 0 < u" and sum: "sum_list part = n" and ne: "part \<noteq> [n]"
    using p by (auto simp: is_partition_of_def)
  have "0 \<le> sum_list xs \<and> (xs \<noteq> [] \<longrightarrow> 0 < sum_list xs)"
    using pos part by (intro sum_list_pos_parts) auto
  moreover have "0 \<le> sum_list ys \<and> (ys \<noteq> [] \<longrightarrow> 0 < sum_list ys)"
    using pos part by (intro sum_list_pos_parts) auto
  moreover have "xs \<noteq> [] \<or> ys \<noteq> []" using ne part sum by (cases xs; cases ys) auto
  ultimately show "v < n" using sum part by auto
qed


subsection \<open>Counting shapes\<close>

text \<open>
  \<^verbatim>\<open>num_shapes(n)\<close> and \<^verbatim>\<open>num_tree_pairings(part)\<close> call each other. The
  \<^verbatim>\<open>lru_cache\<close> on \<^verbatim>\<open>num_shapes\<close> stores results of a pure function and does not
  change them. \<^verbatim>\<open>g[0]\<close> is \<open>hd g\<close>: a group of \<^verbatim>\<open>group_by\<close> is never empty
  (lemma \<open>group_by_nonempty\<close>).
\<close>

function num_shapes :: "int \<Rightarrow> error + int"
  and num_tree_pairings :: "int list \<Rightarrow> error + int" where
  "num_shapes n =
     (if n \<le> 1 then Inr n
      else bindE (partition_asc n) (\<lambda>parts.
           bindE (mapE num_tree_pairings parts) (\<lambda>vs. Inr (sum_list vs))))"
| "num_tree_pairings part =
     bindE (mapE (\<lambda>g. bindE (num_shapes (hd g)) (\<lambda>s.
                    Inr (comb_with_replacement s (int (length g)))))
             (group_partition part))
       (\<lambda>vs. Inr (prod_list vs))"
  by pat_completeness auto
termination
proof (relation "measure (\<lambda>t. case t of Inl n \<Rightarrow> 2 * nat n
                                | Inr part \<Rightarrow> 2 * nat (Max (set part \<union> {0})) + 1)")
  show "wf (measure (\<lambda>t. case t of Inl n \<Rightarrow> 2 * nat n
                                | Inr part \<Rightarrow> 2 * nat (Max (set part \<union> {0})) + 1))" by simp
next
  fix n parts part
  assume "\<not> n \<le> 1" "partition_asc n = Inr parts" "part \<in> set parts"
  then have "\<forall>v\<in>set part. v < n" using partition_parts(2) by blast
  then have "Max (set part \<union> {0}) < n" using \<open>\<not> n \<le> 1\<close> by (subst Max_less_iff) auto
  then have "nat (Max (set part \<union> {0})) < nat n" using \<open>\<not> n \<le> 1\<close> by linarith
  then have "2 * nat (Max (set part \<union> {0})) + 1 < 2 * nat n" by linarith
  then show "(Inr part, Inl n) \<in> measure (\<lambda>t. case t of Inl n \<Rightarrow> 2 * nat n
                                | Inr part \<Rightarrow> 2 * nat (Max (set part \<union> {0})) + 1)"
    by (simp del: Un_insert_right)
next
  fix part g
  assume "g \<in> set (group_partition part)"
  then have "hd g \<in> set part" unfolding group_partition_def by (rule group_by_hd)
  then have "hd g \<le> Max (set part \<union> {0})" by simp
  then have "nat (hd g) \<le> nat (Max (set part \<union> {0}))" by linarith
  then have "2 * nat (hd g) < 2 * nat (Max (set part \<union> {0})) + 1" by linarith
  then show "(Inl (hd g), Inr part) \<in> measure (\<lambda>t. case t of Inl n \<Rightarrow> 2 * nat n
                                | Inr part \<Rightarrow> 2 * nat (Max (set part \<union> {0})) + 1)"
    by (simp del: Un_insert_right)
qed

declare num_shapes.simps [simp del] num_tree_pairings.simps [simp del]


text \<open>
  Both functions return on every argument. \<open>num_shapes_val\<close> and
  \<open>num_tree_pairings_val\<close> name the values they return.
\<close>

definition num_shapes_val :: "int \<Rightarrow> int" where
  "num_shapes_val n = (case num_shapes n of Inr v \<Rightarrow> v | Inl e \<Rightarrow> 0)"

definition num_tree_pairings_val :: "int list \<Rightarrow> int" where
  "num_tree_pairings_val part = (case num_tree_pairings part of Inr v \<Rightarrow> v | Inl e \<Rightarrow> 0)"

lemma mapE_Inr: "(\<And>x. x \<in> set xs \<Longrightarrow> f x = Inr (g x)) \<Longrightarrow> mapE f xs = Inr (map g xs)"
  by (induction xs) auto

lemma num_shapes_total:
  "num_shapes n = Inr (num_shapes_val n)"
  "num_tree_pairings part = Inr (num_tree_pairings_val part)"
proof (induction n and part rule: num_shapes_num_tree_pairings.induct)
  case (1 n)
  show ?case
  proof (cases "n \<le> 1")
    case True
    then show ?thesis by (simp add: num_shapes_val_def num_shapes.simps)
  next
    case False
    have "mapE num_tree_pairings (if 0 < n then butlast (asc_from 1 n) else []) =
          Inr (map num_tree_pairings_val (if 0 < n then butlast (asc_from 1 n) else []))"
      using 1[OF False partition_eq] by (intro mapE_Inr) simp
    then show ?thesis
      using False by (simp add: num_shapes_val_def num_shapes.simps[of n] partition_eq)
  qed
next
  case (2 part)
  have "mapE (\<lambda>g. bindE (num_shapes (hd g)) (\<lambda>s. Inr (comb_with_replacement s (int (length g)))))
          (group_partition part) =
        Inr (map (\<lambda>g. comb_with_replacement (num_shapes_val (hd g)) (int (length g))) (group_partition part))"
    using 2 by (intro mapE_Inr) simp
  then show ?case
    by (simp add: num_tree_pairings_val_def num_tree_pairings.simps[of part])
qed

lemma num_shapes_val_eq:
  "num_shapes_val n = (if n \<le> 1 then n else sum_list (map num_tree_pairings_val (butlast (asc_from 1 n))))"
proof (cases "n \<le> 1")
  case True
  then show ?thesis by (simp add: num_shapes_val_def num_shapes.simps)
next
  case False
  have "mapE num_tree_pairings (butlast (asc_from 1 n)) = Inr (map num_tree_pairings_val (butlast (asc_from 1 n)))"
    by (intro mapE_Inr) (simp add: num_shapes_total)
  then show ?thesis using False
    by (simp add: num_shapes_val_def num_shapes.simps[of n] partition_eq)
qed

lemma num_tree_pairings_val_eq:
  "num_tree_pairings_val part =
     prod_list (map (\<lambda>g. comb_with_replacement (num_shapes_val (hd g)) (int (length g))) (group_partition part))"
proof -
  have "mapE (\<lambda>g. bindE (num_shapes (hd g)) (\<lambda>s. Inr (comb_with_replacement s (int (length g)))))
          (group_partition part) =
        Inr (map (\<lambda>g. comb_with_replacement (num_shapes_val (hd g)) (int (length g))) (group_partition part))"
    by (intro mapE_Inr) (simp add: num_shapes_total)
  then show ?thesis
    by (simp add: num_tree_pairings_val_def num_tree_pairings.simps[of part])
qed

text \<open>
  Claim C3, as amended. \<^verbatim>\<open>num_shapes(0) = 0\<close>, \<^verbatim>\<open>num_shapes(1) = 1\<close>, and for every
  \<open>n \<ge> 2\<close> the value is the sum of \<^verbatim>\<open>num_tree_pairings(part)\<close> over the partitions of
  \<open>n\<close> that \<^verbatim>\<open>partition(n)\<close> yields. The values for \<open>n = 0..7\<close> are
  \<open>0, 1, 1, 2, 5, 12, 33, 90\<close>: the trees counted may have nodes with more than two
  children.
\<close>

theorem C3_num_shapes:
  "num_shapes 0 = Inr 0 \<and> num_shapes 1 = Inr 1 \<and>
   (\<forall>n\<ge>2. \<exists>parts vs. partition_asc n = Inr parts \<and> mapE num_tree_pairings parts = Inr vs \<and>
        num_shapes n = Inr (sum_list vs)) \<and>
   map num_shapes [0, 1, 2, 3, 4, 5, 6, 7] = map Inr [0, 1, 1, 2, 5, 12, 33, 90]"
proof (intro conjI allI impI)
  show "num_shapes 0 = Inr 0" "num_shapes 1 = Inr 1" by (simp_all add: num_shapes.simps)
  show "map num_shapes [0, 1, 2, 3, 4, 5, 6, 7] = map Inr [0, 1, 1, 2, 5, 12, 33, 90]"
    by code_simp
next
  fix n :: int assume n: "2 \<le> n"
  have m: "mapE num_tree_pairings (butlast (asc_from 1 n)) = Inr (map num_tree_pairings_val (butlast (asc_from 1 n)))"
    by (intro mapE_Inr) (simp add: num_shapes_total)
  have "partition_asc n = Inr (butlast (asc_from 1 n))" using n by (simp add: partition_eq)
  moreover have "num_shapes n = Inr (sum_list (map num_tree_pairings_val (butlast (asc_from 1 n))))"
    using n m by (simp add: num_shapes.simps[of n] partition_eq)
  ultimately show "\<exists>parts vs. partition_asc n = Inr parts \<and> mapE num_tree_pairings parts = Inr vs \<and>
        num_shapes n = Inr (sum_list vs)"
    using m by blast
qed

theorem C3_num_shapes_witness:
  "(2::int) \<le> 4 \<and> partition_asc 4 = Inr [[1, 1, 1, 1], [1, 1, 2], [1, 3], [2, 2]] \<and>
   mapE num_tree_pairings [[1, 1, 1, 1], [1, 1, 2], [1, 3], [2, 2]] = Inr [1, 1, 2, 1] \<and>
   num_shapes 4 = Inr (sum_list [1, 1, 2, 1])"
proof -
  have e: "partition_asc 4 = Inr [[1, 1, 1, 1], [1, 1, 2], [1, 3], [2, 2]]" by code_simp
  have f: "mapE num_tree_pairings [[1, 1, 1, 1], [1, 1, 2], [1, 3], [2, 2]] = Inr [1, 1, 2, 1]" by code_simp
  have a: "\<forall>n\<ge>2. \<exists>parts vs. partition_asc n = Inr parts \<and> mapE num_tree_pairings parts = Inr vs \<and>
        num_shapes n = Inr (sum_list vs)"
    by (rule conjunct1[OF conjunct2[OF conjunct2[OF C3_num_shapes]]])
  have "(2::int) \<le> 4" by simp
  from a[rule_format, OF this] show ?thesis unfolding e using f by auto
qed

text \<open>
  Claim C3, as stated, fails: the sequence \<open>0, 1, 1, 1, 2, 3, 6, 11\<close> counts binary
  trees only, and already \<^verbatim>\<open>num_shapes(3)\<close> is \<open>2\<close> (partitions \<open>[1, 1, 1]\<close> and
  \<open>[1, 2]\<close>), not \<open>1\<close>.
\<close>

theorem C3_num_shapes_counterexample:
  "num_shapes 3 = Inr 2 \<and>
   map num_shapes [0, 1, 2, 3, 4, 5, 6, 7] \<noteq> map Inr [0, 1, 1, 1, 2, 3, 6, 11]"
  by code_simp

subsection \<open>Class \<^verbatim>\<open>RankTree\<close>\<close>

text \<open>
  Class \<^verbatim>\<open>RankTree\<close>. The fields are the attributes \<^verbatim>\<open>children\<close>,
  \<^verbatim>\<open>num_leaves\<close>, \<^verbatim>\<open>labels\<close>, \<^verbatim>\<open>_shape_rank\<close> and \<^verbatim>\<open>_label_rank\<close>
  (\<open>None\<close> while the label rank is not computed). The type of the labels is a
  parameter: \<^typ>\<open>int\<close> for a labelled tree, \<^typ>\<open>unit\<close> for a tree whose labels are
  all \<^verbatim>\<open>None\<close>, as \<^verbatim>\<open>shape_unrank\<close> builds them. Python compares labels only with
  \<^verbatim>\<open>==\<close> and \<^verbatim>\<open><\<close>, and a tree that mixes \<^verbatim>\<open>None\<close> with integers cannot be
  merged or ordered there.
\<close>

datatype 'a rank_tree =
  RankTree (children: "'a rank_tree list") (num_leaves: int) (labels: "'a list")
           (shape_rank_field: int) (label_rank_field: "int option")

text \<open>
  Small pieces of Python: \<^verbatim>\<open>xs[0]\<close>, \<^verbatim>\<open>assert\<close>, \<^verbatim>\<open>//\<close> and \<^verbatim>\<open>%\<close> (both
  round towards minus infinity, as \<open>div\<close> and \<open>mod\<close> on \<^typ>\<open>int\<close> do).
\<close>

fun first :: "'a list \<Rightarrow> error + 'a" where
  "first [] = Inl IndexError"
| "first (x # xs) = Inr x"

definition assertE :: "bool \<Rightarrow> error + unit" where
  "assertE b = (if b then Inr () else Inl AssertionError)"

definition floordiv :: "int \<Rightarrow> int \<Rightarrow> error + int" where
  "floordiv a b = (if b = 0 then Inl ZeroDivisionError else Inr (a div b))"

definition pymod :: "int \<Rightarrow> int \<Rightarrow> error + int" where
  "pymod a b = (if b = 0 then Inl ZeroDivisionError else Inr (a mod b))"

text \<open>
  \<^verbatim>\<open>heapq.merge(*iterables)\<close>: as long as some input is left, the smallest of the
  current heads is yielded, and among equal heads the one of the leftmost input.
  \<open>pop_head m ls\<close> removes that head.
\<close>

fun pop_head :: "'a \<Rightarrow> 'a list list \<Rightarrow> 'a list list" where
  "pop_head m [] = []"
| "pop_head m (l # ls) = (if l \<noteq> [] \<and> hd l = m then tl l # ls else l # pop_head m ls)"

function py_merge :: "('a::linorder) list list \<Rightarrow> 'a list" where
  "py_merge ls =
     (let heads = map hd (filter (\<lambda>l. l \<noteq> []) ls) in
      if heads = [] then []
      else (let m = Min (set heads) in m # py_merge (pop_head m ls)))"
  by pat_completeness auto
termination
proof (relation "measure (\<lambda>ls. length (concat ls))")
  fix ls :: "'a list list" and heads m
  assume h: "heads = map hd (filter (\<lambda>l. l \<noteq> []) ls)" "heads \<noteq> []" "m = Min (set heads)"
  have "Min (set heads) \<in> set heads" using h(2) by (intro Min_in) simp_all
  then have "m \<in> set heads" using h(3) by simp
  then have "\<exists>l\<in>set ls. l \<noteq> [] \<and> hd l = m" using h(1) by auto
  then have "length (concat (pop_head m ls)) < length (concat ls)"
    by (induction ls) (auto simp: less_Suc_eq_le Suc_le_eq)
  then show "(pop_head m ls, ls) \<in> measure (\<lambda>ls. length (concat ls))" by simp
qed simp

declare py_merge.simps [simp del]


text \<open>
  \<^verbatim>\<open>range(start, stop, step)\<close>; a zero step raises \<^verbatim>\<open>ValueError\<close>.
\<close>

definition py_range :: "int \<Rightarrow> int \<Rightarrow> int \<Rightarrow> error + int list" where
  "py_range start stop step =
     (if step = 0 then Inl ValueError
      else if step > 0 then Inr (map (\<lambda>i. start + i * step) [0 .. (stop - start - 1) div step])
      else Inr (map (\<lambda>i. start + i * step) [0 .. (start - stop - 1) div (- step)]))"

lemma rank_tree_size_child: "c \<in> set (children t) \<Longrightarrow> size c < size t"
proof (cases t)
  case (RankTree cs nl ls sr lr)
  assume "c \<in> set (children t)"
  then have "c \<in> set cs" using RankTree by simp
  then have "size c \<le> size_list size cs" by (rule size_list_estimation') simp
  then show ?thesis using RankTree by simp
qed

text \<open>
  The small methods of \<^verbatim>\<open>RankTree\<close>. \<^verbatim>\<open>min_label\<close> reads \<^verbatim>\<open>labels[0]\<close>.
  \<open>same_num_leaves\<close> and \<open>same_shape\<close> are the local functions that
  \<^verbatim>\<open>group_children_by_num_leaves\<close> and \<^verbatim>\<open>group_children_by_shape\<close> pass to
  \<^verbatim>\<open>group_by\<close>; both take the list of children.
\<close>

definition is_leaf :: "'a rank_tree \<Rightarrow> bool" where
  "is_leaf t = (length (children t) = 0)"

definition leaf_partition :: "'a rank_tree \<Rightarrow> int list" where
  "leaf_partition t = map num_leaves (children t)"

definition min_label :: "'a rank_tree \<Rightarrow> error + 'a" where
  "min_label t = first (labels t)"

definition same_num_leaves :: "'a rank_tree \<Rightarrow> 'a rank_tree \<Rightarrow> bool" where
  "same_num_leaves c1 c2 = (num_leaves c1 = num_leaves c2)"

definition same_shape :: "'a rank_tree \<Rightarrow> 'a rank_tree \<Rightarrow> bool" where
  "same_shape c1 c2 = (num_leaves c1 = num_leaves c2 \<and> shape_rank_field c1 = shape_rank_field c2)"

definition group_children_by_num_leaves :: "'a rank_tree list \<Rightarrow> 'a rank_tree list list" where
  "group_children_by_num_leaves cs = group_by cs same_num_leaves"

definition group_children_by_shape :: "'a rank_tree list \<Rightarrow> 'a rank_tree list list" where
  "group_children_by_shape cs = group_by cs same_shape"

text \<open>
  \<^verbatim>\<open>compute_shape_rank\<close>. \<open>compute_shape_rank_prior\<close> is the first loop, over the
  partitions that come before the tree's own (\<^verbatim>\<open>break\<close> at the tree's partition);
  \<open>compute_shape_rank_groups\<close> is the second loop, over the groups of children with
  the same number of leaves. The method reads \<^verbatim>\<open>self.children\<close> and
  \<^verbatim>\<open>self.num_leaves\<close> only, which are the two arguments here.
\<close>

fun compute_shape_rank_prior :: "int list \<Rightarrow> int list list \<Rightarrow> int \<Rightarrow> error + int" where
  "compute_shape_rank_prior part [] tot = Inr tot"
| "compute_shape_rank_prior part (prev_part # rest) tot =
     (if prev_part = part then Inr tot
      else bindE (num_tree_pairings prev_part) (\<lambda>v.
           compute_shape_rank_prior part rest (tot + v)))"

fun compute_shape_rank_groups ::
  "int list \<Rightarrow> 'a rank_tree list list \<Rightarrow> nat \<Rightarrow> int \<Rightarrow> error + int" where
  "compute_shape_rank_groups part [] next_child_idx tot = Inr tot"
| "compute_shape_rank_groups part (g # child_groups) next_child_idx tot =
     (let next_child_idx1 = next_child_idx + length g in
      bindE (first g) (\<lambda>g0.
      let k = num_leaves g0 in
      bindE (num_shapes k) (\<lambda>S_k.
      let child_ranks = map shape_rank_field g;
          g_rank = with_replacement_rank child_ranks S_k;
          rest_part = drop next_child_idx1 part in
      bindE (num_tree_pairings rest_part) (\<lambda>total_rest.
      compute_shape_rank_groups part child_groups next_child_idx1 (tot + g_rank * total_rest)))))"

definition compute_shape_rank :: "'a rank_tree list \<Rightarrow> int \<Rightarrow> error + int" where
  "compute_shape_rank cs nl =
     (let part = map num_leaves cs in
      bindE (partition_asc nl) (\<lambda>parts.
      bindE (compute_shape_rank_prior part parts 0) (\<lambda>tot.
      compute_shape_rank_groups part (group_children_by_num_leaves cs) 0 tot)))"

text \<open>
  \<^verbatim>\<open>RankTree.__init__\<close>: \<open>RankTree_leaf\<close> is the call with \<^verbatim>\<open>children=None\<close>,
  \<open>RankTree_node\<close> the call with a list of children. A shape rank that is not given
  is computed.
\<close>

definition RankTree_leaf :: "int option \<Rightarrow> int option \<Rightarrow> 'a \<Rightarrow> error + 'a rank_tree" where
  "RankTree_leaf shape_rank label_rank label =
     bindE (case shape_rank of Some r \<Rightarrow> Inr r | None \<Rightarrow> compute_shape_rank ([] :: 'a rank_tree list) 1) (\<lambda>sr.
       Inr (RankTree [] 1 [label] sr label_rank))"

definition RankTree_node ::
  "int option \<Rightarrow> int option \<Rightarrow> ('a::linorder) rank_tree list \<Rightarrow> error + 'a rank_tree" where
  "RankTree_node shape_rank label_rank cs =
     (let nl = sum_list (map num_leaves cs);
          ls = py_merge (map labels cs) in
      bindE (case shape_rank of Some r \<Rightarrow> Inr r | None \<Rightarrow> compute_shape_rank cs nl) (\<lambda>sr.
        Inr (RankTree cs nl ls sr label_rank)))"

text \<open>
  The counts of labellings. \<^verbatim>\<open>num_assignments_in_group\<close> loops over
  \<^verbatim>\<open>range(k * len(g), 0, -k)\<close>.
\<close>

definition num_assignments_in_group :: "'a rank_tree list \<Rightarrow> error + int" where
  "num_assignments_in_group g =
     (if length g = 0 then Inr 1
      else bindE (first g) (\<lambda>g0.
        let k = num_leaves g0 in
        bindE (py_range (k * int (length g)) 0 (- k)) (\<lambda>ns.
          Inr (foldl (\<lambda>tot n. tot * comb (n - 1) (k - 1)) 1 ns))))"

lemma first_in: "first g = Inr x \<Longrightarrow> x \<in> set g"
  by (cases g) auto

text \<open>
  \<open>max_size\<close> is the largest size of a tree in a list; it measures the recursion of
  the functions below.
\<close>

definition max_size :: "'a rank_tree list \<Rightarrow> nat" where
  "max_size ts = Max (size ` set ts \<union> {0})"

lemma max_size_ge: "t \<in> set ts \<Longrightarrow> size t \<le> max_size ts"
  unfolding max_size_def by (intro Max_ge) auto

lemma max_size_less: "(\<And>t. t \<in> set ts \<Longrightarrow> size t < n) \<Longrightarrow> 0 < n \<Longrightarrow> max_size ts < n"
  unfolding max_size_def by (subst Max_less_iff) auto

lemma max_size_mono: "set ts \<subseteq> set us \<Longrightarrow> max_size ts \<le> max_size us"
  unfolding max_size_def by (intro Max_mono) auto

text \<open>
  \<^verbatim>\<open>RankTree.num_labellings\<close>, \<^verbatim>\<open>num_list_of_group_labellings\<close> (with its loop)
  and \<^verbatim>\<open>num_group_labellings\<close> call each other.
\<close>

function num_labellings :: "'a rank_tree \<Rightarrow> error + int"
  and num_list_of_group_labellings :: "'a rank_tree list list \<Rightarrow> error + int"
  and num_list_of_group_labellings_loop :: "'a rank_tree list list \<Rightarrow> int \<Rightarrow> int \<Rightarrow> error + int"
  and num_group_labellings :: "'a rank_tree list \<Rightarrow> error + int" where
  "num_labellings t =
     (if is_leaf t then Inr 1
      else num_list_of_group_labellings (group_children_by_shape (children t)))"
| "num_list_of_group_labellings groups =
     bindE (mapE (\<lambda>g. bindE (first g) (\<lambda>g0. Inr (int (length g) * num_leaves g0))) groups) (\<lambda>ls.
       num_list_of_group_labellings_loop groups (sum_list ls) 1)"
| "num_list_of_group_labellings_loop [] remaining_leaves tot = Inr tot"
| "num_list_of_group_labellings_loop (g # groups) remaining_leaves tot =
     bindE (first g) (\<lambda>g0.
     let k = num_leaves g0;
         x = int (length g);
         num_label_choices = comb remaining_leaves (x * k) in
     bindE (num_group_labellings g) (\<lambda>ngl.
     num_list_of_group_labellings_loop groups (remaining_leaves - x * k)
       (tot * (num_label_choices * ngl))))"
| "num_group_labellings g =
     bindE (first g) (\<lambda>g0.
     bindE (num_labellings g0) (\<lambda>nl.
     let num_tree_labelings = nl ^ length g in
     bindE (num_assignments_in_group g) (\<lambda>na. Inr (na * num_tree_labelings))))"
  by pat_completeness auto
termination
proof (relation "inv_image (less_than <*lex*> less_than) (\<lambda>v. case v of
          Inl (Inl t) \<Rightarrow> (4 * size t, 0)
        | Inl (Inr groups) \<Rightarrow> (4 * max_size (concat groups) + 3, 0)
        | Inr (Inl (groups, r, t)) \<Rightarrow> (4 * max_size (concat groups) + 2, length groups)
        | Inr (Inr g) \<Rightarrow> (4 * max_size g + 1, 0))", goal_cases)
  case 1
  show ?case by (intro wf_inv_image wf_lex_prod wf_less_than)
next
  case (2 t)
  have "set (concat (group_children_by_shape (children t))) = set (children t)"
    by (simp add: group_children_by_shape_def group_by_concat)
  moreover have "0 < size t" by (cases t) simp
  ultimately have "max_size (concat (group_children_by_shape (children t))) < size t"
    using rank_tree_size_child by (intro max_size_less) auto
  then show ?case by simp
next
  case (3 groups ls)
  show ?case by simp
next
  case (4 g groups remaining_leaves tot g0 k x num_label_choices)
  have "max_size g \<le> max_size (concat (g # groups))"
    by (intro max_size_mono) auto
  then show ?case by simp
next
  case (5 g groups remaining_leaves tot g0 k x num_label_choices ngl)
  have "max_size (concat groups) \<le> max_size (concat (g # groups))"
    by (intro max_size_mono) auto
  then show ?case by auto
next
  case (6 g g0)
  then have "g0 \<in> set g" by (rule first_in)
  then have "size g0 \<le> max_size g" by (rule max_size_ge)
  then show ?case by simp
qed

declare num_labellings.simps [simp del] num_list_of_group_labellings.simps [simp del]
  num_group_labellings.simps [simp del]


text \<open>
  \<^verbatim>\<open>children_shape_ranks(rank, n)\<close>. \<open>children_shape_ranks_part\<close> is the loop that
  looks for the partition of the tree (\<open>None\<close> when the loop ends without
  \<^verbatim>\<open>break\<close>), \<open>children_shape_ranks_groups\<close> the loop over the groups of the
  partition. The assertion \<^verbatim>\<open>0 <= rank < num_shapes(n)\<close> evaluates
  \<^verbatim>\<open>num_shapes(n)\<close> only when \<^verbatim>\<open>0 <= rank\<close>.
\<close>

fun children_shape_ranks_part ::
  "int \<Rightarrow> int list list \<Rightarrow> int \<Rightarrow> error + (int list option \<times> int)" where
  "children_shape_ranks_part rank [] num_prior_trees = Inr (None, num_prior_trees)"
| "children_shape_ranks_part rank (prev_part # rest) num_prior_trees =
     bindE (num_tree_pairings prev_part) (\<lambda>num_trees_with_part.
       if num_prior_trees + num_trees_with_part > rank then Inr (Some prev_part, num_prior_trees)
       else children_shape_ranks_part rank rest (num_prior_trees + num_trees_with_part))"

fun children_shape_ranks_groups ::
  "int list \<Rightarrow> int list list \<Rightarrow> nat \<Rightarrow> int \<Rightarrow> int list \<Rightarrow> error + int list" where
  "children_shape_ranks_groups part [] next_child rank child_ranks = Inr child_ranks"
| "children_shape_ranks_groups part (g # grouped_part) next_child rank child_ranks =
     (let next_child1 = next_child + length g in
      bindE (first g) (\<lambda>k.
      let rest_children = drop next_child1 part in
      bindE (num_tree_pairings rest_children) (\<lambda>rest_num_pairings.
      bindE (floordiv rank rest_num_pairings) (\<lambda>shapes_comb_rank.
      bindE (num_shapes k) (\<lambda>S_k.
      let g_shape_ranks = with_replacement_unrank shapes_comb_rank S_k (length g) in
      bindE (pymod rank rest_num_pairings) (\<lambda>rank1.
      children_shape_ranks_groups part grouped_part next_child1 rank1
        (child_ranks @ g_shape_ranks)))))))"

definition children_shape_ranks :: "int \<Rightarrow> int \<Rightarrow> error + (int list \<times> int list)" where
  "children_shape_ranks rank n =
     bindE (assertE (n > 1)) (\<lambda>_.
     bindE (if 0 \<le> rank then bindE (num_shapes n) (\<lambda>S_n. assertE (rank < S_n))
            else Inl AssertionError) (\<lambda>_.
     bindE (partition_asc n) (\<lambda>parts.
     bindE (children_shape_ranks_part rank parts 0) (\<lambda>(part_opt, num_prior_trees).
     case part_opt of
       None \<Rightarrow> Inl AssertionError
     | Some part \<Rightarrow>
         bindE (children_shape_ranks_groups part (group_partition part) 0
                  (rank - num_prior_trees) []) (\<lambda>child_ranks.
         Inr (part, child_ranks))))))"

lemma children_shape_ranks_part_in:
  "children_shape_ranks_part rank parts npt = Inr (Some part, v) \<Longrightarrow> part \<in> set parts"
  by (induction parts arbitrary: npt) (auto simp: bindE_def split: sum.splits if_splits)

lemma children_shape_ranks_parts:
  assumes "children_shape_ranks rank n = Inr (part, child_ranks)" "k \<in> set part"
  shows "0 < k" "k < n"
proof -
  obtain parts v where "partition_asc n = Inr parts" "children_shape_ranks_part rank parts 0 = Inr (Some part, v)"
    using assms(1) unfolding children_shape_ranks_def
    by (auto simp: bindE_def split: sum.splits option.splits if_splits prod.splits)
  then have "partition_asc n = Inr parts" "part \<in> set parts"
    using children_shape_ranks_part_in by auto
  then show "0 < k" "k < n" using partition_parts assms(2) by auto
qed

text \<open>
  \<^verbatim>\<open>RankTree.shape_unrank(shape_rank, n)\<close>.
\<close>

function shape_unrank :: "int \<Rightarrow> int \<Rightarrow> error + unit rank_tree" where
  "shape_unrank shape_rank n =
     (if n = 1 then bindE (assertE (shape_rank = 0)) (\<lambda>_. RankTree_leaf (Some 0) None ())
      else bindE (children_shape_ranks shape_rank n) (\<lambda>(part, child_shape_ranks).
           bindE (mapE (\<lambda>(rk, k). shape_unrank rk k) (zip child_shape_ranks part)) (\<lambda>cs.
           RankTree_node (Some shape_rank) None cs)))"
  by pat_completeness auto
termination
proof (relation "measure (\<lambda>(shape_rank, n). nat n)", goal_cases)
  case 1
  show ?case by simp
next
  case (2 shape_rank n x part child_shape_ranks z rk k)
  then have "k \<in> set part" by (auto dest: set_zip_rightD)
  then have "0 < k" "k < n" using children_shape_ranks_parts 2 by auto
  then show ?case by simp
qed

declare shape_unrank.simps [simp del]


text \<open>
  The size passed to \<^verbatim>\<open>Combination.unrank\<close>: with a negative size the Python
  recursion does not end.
\<close>

definition unrank_size :: "int \<Rightarrow> error + nat" where
  "unrank_size k = (if k < 0 then Inl NonTermination else Inr (nat k))"

text \<open>
  \<^verbatim>\<open>group_label_ranks(rank, child_group, labels)\<close> and
  \<^verbatim>\<open>children_label_ranks(child_groups, rank, labels)\<close>, each with its loop.
\<close>

fun group_label_ranks_loop ::
  "int \<Rightarrow> 'a rank_tree list \<Rightarrow> 'b list \<Rightarrow> 'b list list \<Rightarrow> int list \<Rightarrow>
   error + ('b list list \<times> int list)" where
  "group_label_ranks_loop rank [] lbls child_labels child_label_ranks =
     Inr (child_labels, child_label_ranks)"
| "group_label_ranks_loop rank (rank_tree # rest_trees) lbls child_labels child_label_ranks =
     (let k = num_leaves rank_tree in
      bindE (num_labellings rank_tree) (\<lambda>num_t_labellings.
      bindE (num_assignments_in_group rest_trees) (\<lambda>num_rest_assignments.
      let num_rest_labellings = num_rest_assignments * (num_t_labellings ^ length rest_trees);
          num_labellings_per_label_comb = num_t_labellings * num_rest_labellings in
      bindE (floordiv rank num_labellings_per_label_comb) (\<lambda>comb_rank.
      bindE (pymod rank num_labellings_per_label_comb) (\<lambda>rank_given_comb.
      bindE (floordiv rank_given_comb num_rest_labellings) (\<lambda>t_rank.
      bindE (pymod rank num_rest_labellings) (\<lambda>rank1.
      bindE (first lbls) (\<lambda>min_label.
      bindE (unrank_size (k - 1)) (\<lambda>k1.
      let t_labels = [min_label] @ Combination_unrank comb_rank (drop 1 lbls) k1;
          labels1 = set_minus lbls t_labels in
      group_label_ranks_loop rank1 rest_trees labels1
        (child_labels @ [t_labels]) (child_label_ranks @ [t_rank]))))))))))"

definition group_label_ranks ::
  "int \<Rightarrow> 'a rank_tree list \<Rightarrow> 'b list \<Rightarrow> error + ('b list list \<times> int list)" where
  "group_label_ranks rank child_group lbls = group_label_ranks_loop rank child_group lbls [] []"

fun children_label_ranks_loop ::
  "'a rank_tree list list \<Rightarrow> int \<Rightarrow> 'b list \<Rightarrow> 'b list list \<Rightarrow> int list \<Rightarrow>
   error + ('b list list \<times> int list)" where
  "children_label_ranks_loop [] rank lbls child_labels child_label_ranks =
     Inr (child_labels, child_label_ranks)"
| "children_label_ranks_loop (g # rest_groups) rank lbls child_labels child_label_ranks =
     bindE (first g) (\<lambda>g0.
     let k = num_leaves g0;
         g_num_leaves = k * int (length g) in
     bindE (num_group_labellings g) (\<lambda>num_g_labellings.
     bindE (num_list_of_group_labellings rest_groups) (\<lambda>num_rest_labellings.
     let num_labellings_per_label_comb = num_g_labellings * num_rest_labellings in
     bindE (floordiv rank num_labellings_per_label_comb) (\<lambda>comb_rank.
     bindE (pymod rank num_labellings_per_label_comb) (\<lambda>rank_given_label_comb.
     bindE (floordiv rank_given_label_comb num_rest_labellings) (\<lambda>g_rank.
     bindE (unrank_size g_num_leaves) (\<lambda>gk.
     let g_labels = Combination_unrank comb_rank lbls gk in
     bindE (group_label_ranks g_rank g g_labels) (\<lambda>(g_child_labels, g_child_ranks).
     let labels1 = set_minus lbls g_labels in
     bindE (pymod rank num_rest_labellings) (\<lambda>rank1.
     children_label_ranks_loop rest_groups rank1 labels1
       (child_labels @ g_child_labels) (child_label_ranks @ g_child_ranks))))))))))"

definition children_label_ranks ::
  "'a rank_tree list list \<Rightarrow> int \<Rightarrow> 'b list \<Rightarrow> error + ('b list list \<times> int list)" where
  "children_label_ranks child_groups rank lbls =
     children_label_ranks_loop child_groups rank lbls [] []"

text \<open>
  \<^verbatim>\<open>RankTree.label_unrank(self, label_rank, labels)\<close>: \<open>label_unrank_from\<close> is the
  call with a list of labels, \<open>label_unrank\<close> the call with \<^verbatim>\<open>labels=None\<close>, which
  takes \<^verbatim>\<open>list(range(self.num_leaves))\<close>. \<open>RankTree_unrank\<close> is
  \<^verbatim>\<open>RankTree.unrank(rank, num_leaves)\<close>.
\<close>

function label_unrank_from ::
  "'a rank_tree \<Rightarrow> int \<Rightarrow> ('b::linorder) list \<Rightarrow> error + 'b rank_tree" where
  "label_unrank_from t label_rank lbls =
     (if is_leaf t then
        bindE (assertE (label_rank = 0)) (\<lambda>_.
        bindE (assertE (length lbls = 1)) (\<lambda>_.
        bindE (first lbls) (\<lambda>l. RankTree_leaf None (Some label_rank) l)))
      else
        (let child_groups = group_children_by_shape (children t) in
         bindE (children_label_ranks child_groups label_rank lbls)
           (\<lambda>(child_labels, child_label_ranks).
         bindE (mapE (\<lambda>(c, c_rank, c_labels). label_unrank_from c c_rank c_labels)
                  (zip (children t) (zip child_label_ranks child_labels))) (\<lambda>labelled_children.
         RankTree_node (Some (shape_rank_field t)) (Some label_rank) labelled_children))))"
  by pat_completeness auto
termination
proof (relation "measure (\<lambda>(t, label_rank, lbls). size t)", goal_cases)
  case 1
  show ?case by simp
next
  case (2 t label_rank lbls child_groups x child_labels child_label_ranks z c y c_rank c_labels)
  then have "c \<in> set (children t)" by (auto dest: set_zip_leftD)
  then show ?case using rank_tree_size_child by simp
qed

declare label_unrank_from.simps [simp del]

definition label_unrank :: "'a rank_tree \<Rightarrow> int \<Rightarrow> error + int rank_tree" where
  "label_unrank t label_rank = label_unrank_from t label_rank [0 .. num_leaves t - 1]"

definition RankTree_unrank :: "int \<times> int \<Rightarrow> int \<Rightarrow> error + int rank_tree" where
  "RankTree_unrank rank n =
     (case rank of (shape_rank, label_rank) \<Rightarrow>
        bindE (shape_unrank shape_rank n) (\<lambda>unlabelled. label_unrank unlabelled label_rank))"


text \<open>
  \<^verbatim>\<open>group_rank(g)\<close> with its loop, and \<^verbatim>\<open>RankTree.add_label_ranks\<close> with its loop.
  \<^verbatim>\<open>add_label_ranks\<close> stores a label rank in the tree and in every subtree; here it
  returns the tree with the ranks stored. A stored rank \<^verbatim>\<open>None\<close> in an arithmetic
  expression raises \<^verbatim>\<open>TypeError\<close>.
\<close>

fun group_rank_loop ::
  "int \<Rightarrow> int \<Rightarrow> int \<Rightarrow> int \<Rightarrow> int \<Rightarrow> ('a::linorder) rank_tree list \<Rightarrow> 'a list \<Rightarrow> int \<Rightarrow>
   error + int" where
  "group_rank_loop len_g k n y i [] all_labels rank = Inr rank"
| "group_rank_loop len_g k n y i (t # ts) all_labels rank =
     (let u_labels = labels t;
          curr_trees = len_g - i in
      bindE (Combination_rank u_labels all_labels) (\<lambda>comb_rank.
      let remaining_leaves = n - (i + 1) * k;
          num_rest_combs =
            foldl (\<lambda>c j. c * comb (remaining_leaves - j * k - 1) (k - 1)) 1 [0 .. curr_trees - 1 - 1];
          preceding_combs = comb_rank * num_rest_combs * (y ^ nat curr_trees) in
      bindE (case label_rank_field t of None \<Rightarrow> Inl TypeError | Some r \<Rightarrow> Inr r) (\<lambda>t_label_rank.
      let curr_comb = t_label_rank * num_rest_combs * (y ^ nat (curr_trees - 1)) in
      group_rank_loop len_g k n y (i + 1) ts (set_minus all_labels u_labels)
        (rank + (preceding_combs + curr_comb)))))"

definition group_rank :: "('a::linorder) rank_tree list \<Rightarrow> error + int" where
  "group_rank g =
     bindE (first g) (\<lambda>g0.
     let k = num_leaves g0;
         n = int (length g) * k in
     bindE (num_labellings g0) (\<lambda>y.
     let all_labels = py_merge (map labels g) in
     group_rank_loop (int (length g)) k n y 0 g all_labels 0))"

fun add_label_ranks_loop ::
  "('a::linorder) rank_tree list list \<Rightarrow> 'a list \<Rightarrow> int \<Rightarrow> error + int" where
  "add_label_ranks_loop [] all_labels tot = Inr tot"
| "add_label_ranks_loop (g # rest_groups) all_labels tot =
     (let g_labels = py_merge (map labels g) in
      bindE (num_list_of_group_labellings rest_groups) (\<lambda>num_rest_labellings.
      bindE (Combination_rank g_labels all_labels) (\<lambda>comb_rank.
      bindE (num_group_labellings g) (\<lambda>num_g_labellings.
      let preceding_comb = comb_rank * num_g_labellings * num_rest_labellings in
      bindE (group_rank g) (\<lambda>gr.
      let rank_from_g = gr * num_rest_labellings in
      add_label_ranks_loop rest_groups (set_minus all_labels g_labels)
        (tot + (preceding_comb + rank_from_g)))))))"

function add_label_ranks :: "('a::linorder) rank_tree \<Rightarrow> error + 'a rank_tree" where
  "add_label_ranks t =
     bindE (mapE add_label_ranks (children t)) (\<lambda>cs.
     let all_labels = labels t;
         child_groups = group_children_by_shape cs in
     bindE (add_label_ranks_loop child_groups all_labels 0) (\<lambda>tot.
     Inr (RankTree cs (num_leaves t) (labels t) (shape_rank_field t) (Some tot))))"
  by pat_completeness auto
termination
  by (relation "measure size") (auto simp: rank_tree_size_child)

declare add_label_ranks.simps [simp del]

text \<open>
  \<^verbatim>\<open>RankTree.shape_rank\<close>, \<^verbatim>\<open>RankTree.label_rank\<close> and \<^verbatim>\<open>RankTree.rank\<close>.
\<close>

definition shape_rank :: "'a rank_tree \<Rightarrow> int" where
  "shape_rank t = shape_rank_field t"

definition label_rank :: "('a::linorder) rank_tree \<Rightarrow> error + int option" where
  "label_rank t =
     (case label_rank_field t of
        None \<Rightarrow> bindE (add_label_ranks t) (\<lambda>t1. Inr (label_rank_field t1))
      | Some r \<Rightarrow> Inr (Some r))"

definition RankTree_rank :: "('a::linorder) rank_tree \<Rightarrow> error + (int \<times> int option)" where
  "RankTree_rank t = bindE (label_rank t) (\<lambda>lr. Inr (shape_rank t, lr))"

text \<open>
  \<^verbatim>\<open>RankTree.canonical_order\<close> and \<^verbatim>\<open>RankTree.is_canonical\<close>. Triples are ordered
  lexicographically, as Python tuples are. \<open>is_canonical_pairs\<close> is the loop over
  neighbouring children; \<open>allE\<close> is \<^verbatim>\<open>all(...)\<close>, which stops at the first
  \<^verbatim>\<open>False\<close>.
\<close>

definition canonical_order :: "'a rank_tree \<Rightarrow> error + (int \<times> int \<times> 'a)" where
  "canonical_order c = bindE (min_label c) (\<lambda>m. Inr (num_leaves c, shape_rank_field c, m))"

fun is_canonical_pairs :: "(('a::linorder) rank_tree \<times> 'a rank_tree) list \<Rightarrow> error + bool" where
  "is_canonical_pairs [] = Inr True"
| "is_canonical_pairs ((c1, c2) # rest) =
     bindE (canonical_order c1) (\<lambda>o1.
     bindE (canonical_order c2) (\<lambda>o2.
     if o1 > o2 then Inr False else is_canonical_pairs rest))"

fun allE :: "('a \<Rightarrow> error + bool) \<Rightarrow> 'a list \<Rightarrow> error + bool" where
  "allE f [] = Inr True"
| "allE f (x # xs) = bindE (f x) (\<lambda>b. if b then allE f xs else Inr False)"

lemma allE_cong [fundef_cong]:
  "xs = ys \<Longrightarrow> (\<And>x. x \<in> set ys \<Longrightarrow> f x = g x) \<Longrightarrow> allE f xs = allE g ys"
  by (induction ys arbitrary: xs) (auto simp: bindE_def split: sum.splits)

function is_canonical :: "('a::linorder) rank_tree \<Rightarrow> error + bool" where
  "is_canonical t =
     (if is_leaf t then Inr True
      else bindE (is_canonical_pairs (zip (children t) (drop 1 (children t)))) (\<lambda>ok.
           if \<not> ok then Inr False else allE is_canonical (children t)))"
  by pat_completeness auto
termination
  by (relation "measure size") (auto simp: rank_tree_size_child)

declare is_canonical.simps [simp del]




text \<open>
  The tree of the external library \<^verbatim>\<open>tskit\<close>, as far as \<^verbatim>\<open>from_tsk_tree\<close> reads
  it: \<^verbatim>\<open>tree.roots\<close>, and for a node \<^verbatim>\<open>u\<close> its number and \<^verbatim>\<open>tree.children(u)\<close>
  (\<^verbatim>\<open>tree.is_leaf(u)\<close> holds when there are none). With exactly one root,
  \<^verbatim>\<open>tree.root\<close> is that root.
\<close>

datatype tsk_node = TskNode (node_id: int) (node_children: "tsk_node list")

datatype tsk_tree = TskTree (roots: "tsk_node list")

text \<open>
  \<^verbatim>\<open>RankTree.from_tsk_tree_node\<close> sorts the children with the key
  \<^verbatim>\<open>canonical_order\<close> (\<^verbatim>\<open>sorted\<close> is stable, as \<open>sort_key\<close> is);
  \<^verbatim>\<open>RankTree.from_tsk_tree\<close> and the module's \<^verbatim>\<open>rank(tree)\<close>.
\<close>

fun from_tsk_tree_node :: "tsk_node \<Rightarrow> error + int rank_tree" where
  "from_tsk_tree_node (TskNode u cs) =
     (if cs = [] then RankTree_leaf None None u
      else bindE (mapE from_tsk_tree_node cs) (\<lambda>rank_trees.
           bindE (mapE (\<lambda>c. bindE (canonical_order c) (\<lambda>key. Inr (key, c))) rank_trees) (\<lambda>keyed.
           RankTree_node None None (map snd (sort_key fst keyed)))))"

definition from_tsk_tree :: "tsk_tree \<Rightarrow> error + int rank_tree" where
  "from_tsk_tree tree =
     (if length (roots tree) \<noteq> 1 then Inl MultipleRootsError
      else bindE (from_tsk_tree_node (hd (roots tree))) add_label_ranks)"

definition rank :: "tsk_tree \<Rightarrow> error + (int \<times> int option)" where
  "rank tree = bindE (from_tsk_tree tree) RankTree_rank"

subsection \<open>Which calls raise the multiple-roots error\<close>

text \<open>
  \<open>no_mre r\<close>: the result \<open>r\<close> is not the multiple-roots error. No function below
  \<^verbatim>\<open>from_tsk_tree\<close> raises it.
\<close>

definition no_mre :: "error + 'a \<Rightarrow> bool" where
  "no_mre r = (r \<noteq> Inl MultipleRootsError)"

named_theorems no_mre_intros

lemma no_mre_Inr [no_mre_intros]: "no_mre (Inr v)"
  by (simp add: no_mre_def)

lemma no_mre_Inl [no_mre_intros]:
  "no_mre (Inl AssertionError)" "no_mre (Inl IndexError)" "no_mre (Inl ValueError)"
  "no_mre (Inl ZeroDivisionError)" "no_mre (Inl TypeError)" "no_mre (Inl NonTermination)"
  by (simp_all add: no_mre_def)

lemma no_mre_bindE [no_mre_intros]:
  "no_mre m \<Longrightarrow> (\<And>v. m = Inr v \<Longrightarrow> no_mre (f v)) \<Longrightarrow> no_mre (bindE m f)"
  by (cases m) (auto simp: no_mre_def)

lemma no_mre_mapE [no_mre_intros]:
  "(\<And>x. x \<in> set xs \<Longrightarrow> no_mre (f x)) \<Longrightarrow> no_mre (mapE f xs)"
  by (induction xs) (auto intro!: no_mre_intros)

lemma no_mre_first [no_mre_intros]: "no_mre (first xs)"
  by (cases xs) (auto intro: no_mre_intros)

lemma no_mre_num_shapes [no_mre_intros]: "no_mre (num_shapes n)" "no_mre (num_tree_pairings part)"
  by (simp_all add: num_shapes_total no_mre_def)

lemma no_mre_partition [no_mre_intros]: "no_mre (partition_asc n)"
  by (simp add: partition_eq no_mre_def)

lemma no_mre_compute_shape_rank_prior [no_mre_intros]:
  "no_mre (compute_shape_rank_prior part parts tot)"
  by (induction parts arbitrary: tot) (auto intro!: no_mre_intros)

lemma no_mre_compute_shape_rank_groups [no_mre_intros]:
  "no_mre (compute_shape_rank_groups part groups idx tot)"
  by (induction groups arbitrary: idx tot) (auto intro!: no_mre_intros simp: Let_def)

lemma no_mre_compute_shape_rank [no_mre_intros]: "no_mre (compute_shape_rank cs nl)"
  by (auto simp: compute_shape_rank_def Let_def intro!: no_mre_intros)

lemma no_mre_RankTree_leaf [no_mre_intros]: "no_mre (RankTree_leaf sr lr l)"
  by (auto simp: RankTree_leaf_def intro!: no_mre_intros split: option.splits)

lemma no_mre_RankTree_node [no_mre_intros]: "no_mre (RankTree_node sr lr cs)"
  by (auto simp: RankTree_node_def Let_def intro!: no_mre_intros split: option.splits)

lemma no_mre_canonical_order [no_mre_intros]: "no_mre (canonical_order c)"
  by (auto simp: canonical_order_def min_label_def intro!: no_mre_intros)

lemma no_mre_from_tsk_tree_node [no_mre_intros]: "no_mre (from_tsk_tree_node u)"
  by (induction u rule: from_tsk_tree_node.induct) (auto intro!: no_mre_intros)

lemma no_mre_py_range [no_mre_intros]: "no_mre (py_range a b c)"
  by (auto simp: py_range_def intro!: no_mre_intros)

lemma no_mre_num_assignments_in_group [no_mre_intros]: "no_mre (num_assignments_in_group g)"
  by (auto simp: num_assignments_in_group_def Let_def intro!: no_mre_intros)

lemma no_mre_num_labellings:
  fixes t :: "'a rank_tree" and groups groups1 :: "'a rank_tree list list" and g :: "'a rank_tree list"
  shows "no_mre (num_labellings t)"
  "no_mre (num_list_of_group_labellings groups)"
  "no_mre (num_list_of_group_labellings_loop groups1 r tot)"
  "no_mre (num_group_labellings g)"
proof (induction t and groups and groups1 r tot and g
       rule: num_labellings_num_list_of_group_labellings_num_list_of_group_labellings_loop_num_group_labellings.induct)
  case (1 t)
  then show ?case by (subst num_labellings.simps) (auto intro!: no_mre_intros)
next
  case (2 groups)
  then show ?case by (subst num_list_of_group_labellings.simps) (auto intro!: no_mre_intros)
next
  case (3 remaining_leaves tot)
  then show ?case by (auto intro!: no_mre_intros)
next
  case (4 g groups remaining_leaves tot)
  then show ?case by (auto intro!: no_mre_intros simp: Let_def)
next
  case (5 g)
  then show ?case by (subst num_group_labellings.simps) (auto intro!: no_mre_intros simp: Let_def)
qed

declare no_mre_num_labellings [no_mre_intros]

lemma no_mre_list_index [no_mre_intros]: "no_mre (list_index xs x)"
  by (induction xs) (auto intro!: no_mre_intros)

lemma no_mre_Combination_rank [no_mre_intros]: "no_mre (Combination_rank c es)"
  by (auto simp: Combination_rank_def intro!: no_mre_intros split: option.splits)

lemma no_mre_group_rank_loop [no_mre_intros]:
  "no_mre (group_rank_loop len_g k n y i ts all_labels r)"
  by (induction ts arbitrary: i all_labels r)
     (auto intro!: no_mre_intros simp: Let_def split: option.splits)

lemma no_mre_group_rank [no_mre_intros]: "no_mre (group_rank g)"
  by (auto simp: group_rank_def Let_def intro!: no_mre_intros)

lemma no_mre_add_label_ranks_loop [no_mre_intros]:
  "no_mre (add_label_ranks_loop groups all_labels tot)"
  by (induction groups arbitrary: all_labels tot) (auto intro!: no_mre_intros simp: Let_def)

lemma no_mre_add_label_ranks [no_mre_intros]: "no_mre (add_label_ranks t)"
proof (induction t rule: add_label_ranks.induct)
  case (1 t)
  then show ?case by (subst add_label_ranks.simps) (auto intro!: no_mre_intros simp: Let_def)
qed

lemma no_mre_RankTree_rank [no_mre_intros]: "no_mre (RankTree_rank t)"
  by (auto simp: RankTree_rank_def label_rank_def intro!: no_mre_intros split: option.splits)

text \<open>
  Claim C9, as amended. \<^verbatim>\<open>rank(tree)\<close> fails with the multiple-roots error exactly
  when the number of roots of the tree is not one: with two or more roots, and also
  with none. A tree with one root is never rejected with this error.
\<close>

theorem C9_rank_multiple_roots:
  "(rank tree = Inl MultipleRootsError) = (length (roots tree) \<noteq> 1)"
proof (cases "length (roots tree) = 1")
  case True
  have "no_mre (rank tree)"
    using True by (auto simp: rank_def from_tsk_tree_def intro!: no_mre_intros)
  then show ?thesis using True by (simp add: no_mre_def)
next
  case False
  then show ?thesis by (simp add: rank_def from_tsk_tree_def)
qed

text \<open>
  Claim C9, as stated, fails on the tree without roots: it has not more than one root,
  and \<^verbatim>\<open>rank\<close> raises the multiple-roots error (the test is
  \<^verbatim>\<open>len(tree.roots) != 1\<close>).
\<close>

theorem C9_rank_zero_roots_counterexample:
  "rank (TskTree []) = Inl MultipleRootsError \<and> \<not> 1 < length (roots (TskTree []))"
  by (simp add: rank_def from_tsk_tree_def)

subsection \<open>Ranking and unranking combinations are inverse\<close>

lemma comb_zero [simp]: "comb n 0 = 1"
  by (simp add: comb_eq)

lemma comb_self [simp]: "0 \<le> n \<Longrightarrow> comb n n = 1"
  by (simp add: comb_eq)

lemma comb_pascal:
  assumes "0 < k" "k < n"
  shows "comb n k = comb (n - 1) (k - 1) + comb (n - 1) k"
proof -
  obtain n' where n': "n = int (Suc n')" using assms by (metis nat_0_le not_less_iff_gr_or_eq of_nat_0_less_iff gr0_implies_Suc order_less_trans zero_less_nat_eq less_imp_le)
  obtain k' where k': "k = int (Suc k')" using assms by (metis nat_0_le gr0_implies_Suc zero_less_nat_eq less_imp_le)
  have le: "k' < n'" using assms n' k' by simp
  have "comb n k = int (Suc n' choose Suc k')"
    unfolding n' k' using le by (subst comb_binomial_nat) simp_all
  moreover have "comb (n - 1) (k - 1) = int (n' choose k')"
    using comb_binomial_nat[of k' n'] le n' k' by simp
  moreover have "comb (n - 1) k = int (n' choose Suc k')"
    using comb_binomial_nat[of "Suc k'" n'] le n' k' by simp
  ultimately show ?thesis by simp
qed

text \<open>
  \<open>wr_preceding n k j\<close> is the value of \<^verbatim>\<open>preceding\<close> after the loop of
  \<^verbatim>\<open>with_replacement_rank\<close>: the number of multisets whose smallest element is below
  \<open>j\<close>.
\<close>

definition wr_preceding :: "int \<Rightarrow> int \<Rightarrow> int \<Rightarrow> int" where
  "wr_preceding n k j = sum_list (map (\<lambda>i. comb_with_replacement (n - i) k) [0..j - 1])"

lemma wr_preceding_0 [simp]: "wr_preceding n k 0 = 0"
  by (simp add: wr_preceding_def)

lemma wr_preceding_Suc:
  "0 \<le> j \<Longrightarrow> wr_preceding n k (j + 1) = wr_preceding n k j + comb_with_replacement (n - j) k"
  by (simp add: wr_preceding_def upto_rec2)

lemma cwr_pos: "1 \<le> comb_with_replacement n k"
  by (simp add: comb_with_replacement_def comb_pos)

lemma wr_preceding_nonneg: "0 \<le> j \<Longrightarrow> 0 \<le> wr_preceding n k j"
proof (induction "nat j" arbitrary: j)
  case 0
  then show ?case by simp
next
  case (Suc m)
  then have "m = nat (j - 1)" "0 \<le> j - 1" by auto
  then have "0 \<le> wr_preceding n k (j - 1)" using Suc(1) by blast
  then show ?case using wr_preceding_Suc[of "j - 1" n k] cwr_pos[of "n - (j - 1)" k] \<open>0 \<le> j - 1\<close> by simp
qed

lemma cwr_pascal:
  assumes "2 \<le> m" "0 \<le> k"
  shows "comb_with_replacement m (k + 1) = comb_with_replacement m k + comb_with_replacement (m - 1) (k + 1)"
proof -
  have "comb (m + k) (k + 1) = comb (m + k - 1) (k + 1 - 1) + comb (m + k - 1) (k + 1)"
    using assms by (intro comb_pascal) auto
  moreover have "m + (k + 1) - 1 = m + k" "m - 1 + (k + 1) - 1 = m + k - 1" by simp_all
  ultimately show ?thesis by (simp add: comb_with_replacement_def)
qed

lemma cwr_one [simp]: "0 \<le> k \<Longrightarrow> comb_with_replacement 1 k = 1"
  by (simp add: comb_with_replacement_def)

lemma cwr_zero [simp]: "comb_with_replacement n 0 = 1"
  by (simp add: comb_with_replacement_def)

lemma wr_hockey:
  "0 \<le> j \<Longrightarrow> j < n \<Longrightarrow> 0 \<le> k \<Longrightarrow>
   wr_preceding n k j + comb_with_replacement (n - j) (k + 1) = comb_with_replacement n (k + 1)"
proof (induction "nat j" arbitrary: j)
  case 0
  then show ?case by simp
next
  case (Suc m)
  then have j: "m = nat (j - 1)" "0 \<le> j - 1" "j - 1 < n" by auto
  have ih: "wr_preceding n k (j - 1) + comb_with_replacement (n - (j - 1)) (k + 1) = comb_with_replacement n (k + 1)"
    using Suc(1)[OF j(1) j(2) j(3) Suc(5)] .
  have "comb_with_replacement (n - (j - 1)) (k + 1) =
        comb_with_replacement (n - (j - 1)) k + comb_with_replacement (n - (j - 1) - 1) (k + 1)"
    using Suc(4,5) by (intro cwr_pascal) auto
  then show ?case using ih wr_preceding_Suc[of "j - 1" n k] j(2) by simp
qed

lemma wr_preceding_le:
  assumes "0 \<le> j" "j < n" "0 \<le> k"
  shows "wr_preceding n k (j + 1) \<le> comb_with_replacement n (k + 1)"
proof (cases "j + 1 < n")
  case True
  have "wr_preceding n k (j + 1) + comb_with_replacement (n - (j + 1)) (k + 1) = comb_with_replacement n (k + 1)"
    using assms True by (intro wr_hockey) auto
  then show ?thesis using cwr_pos[of "n - (j + 1)" "k + 1"] by linarith
next
  case False
  then have j: "j = n - 1" using assms by auto
  have "wr_preceding n k j + comb_with_replacement (n - j) (k + 1) = comb_with_replacement n (k + 1)"
    using assms by (intro wr_hockey) auto
  then show ?thesis using wr_preceding_Suc[of j n k] assms j by simp
qed


lemma with_replacement_rank_Nil [simp]: "with_replacement_rank [] n = 0"
  by (subst with_replacement_rank.simps) simp

lemma wr_preceding_k0: "0 \<le> j \<Longrightarrow> wr_preceding n 0 j = j"
proof (induction "nat j" arbitrary: j)
  case 0
  then show ?case by simp
next
  case (Suc m)
  then have "m = nat (j - 1)" "0 \<le> j - 1" by auto
  then have "wr_preceding n 0 (j - 1) = j - 1" using Suc(1) by blast
  then show ?case using wr_preceding_Suc[of "j - 1" n 0] \<open>0 \<le> j - 1\<close> by simp
qed

lemma with_replacement_rank_Cons:
  assumes "0 \<le> j"
  shows "with_replacement_rank (j # xs) n =
         wr_preceding n (int (length xs)) j + with_replacement_rank (map (\<lambda>x. x - j) xs) (n - j)"
proof (cases xs)
  case Nil
  then show ?thesis using assms by (subst with_replacement_rank.simps) (simp add: wr_preceding_k0)
next
  case (Cons y ys)
  show ?thesis
  proof (cases "j = 0")
    case True
    then show ?thesis using Cons by (subst with_replacement_rank.simps) simp
  next
    case False
    then show ?thesis using Cons
      by (subst with_replacement_rank.simps) (simp add: Let_def wr_preceding_def)
  qed
qed

lemma with_replacement_unrank_length [simp]: "length (with_replacement_unrank r n k) = k"
  by (induction k arbitrary: r n) (auto split: prod.splits)

lemma wr_unrank_loop_sound:
  "0 \<le> r \<Longrightarrow> 0 \<le> i \<Longrightarrow> with_replacement_unrank_loop r n k i = (r', i') \<Longrightarrow>
   i \<le> i' \<and> 0 \<le> r' \<and> r' < comb_with_replacement (n - i') k \<and>
   r + wr_preceding n k i = r' + wr_preceding n k i'"
proof (induction r n k i rule: with_replacement_unrank_loop.induct)
  case (1 rank n k1 i)
  show ?case
  proof (cases "rank \<ge> comb_with_replacement (n - i) k1")
    case True
    have "0 \<le> rank - comb_with_replacement (n - i) k1" using True by simp
    moreover have "with_replacement_unrank_loop (rank - comb_with_replacement (n - i) k1) n k1 (i + 1) = (r', i')"
      using 1(4) True by (subst (asm) with_replacement_unrank_loop.simps) (simp add: Let_def)
    ultimately have "i + 1 \<le> i' \<and> 0 \<le> r' \<and> r' < comb_with_replacement (n - i') k1 \<and>
       rank - comb_with_replacement (n - i) k1 + wr_preceding n k1 (i + 1) = r' + wr_preceding n k1 i'"
      using 1(1)[OF refl True] 1(3) by simp
    then show ?thesis using wr_preceding_Suc[of i n k1] 1(3) by simp
  next
    case False
    then have "r' = rank" "i' = i"
      using 1(4) by (subst (asm) with_replacement_unrank_loop.simps, simp add: Let_def)+
    then show ?thesis using False 1(2) by simp
  qed
qed

lemma wr_unrank_loop_complete:
  "0 \<le> i \<Longrightarrow> i \<le> j \<Longrightarrow> 0 \<le> r' \<Longrightarrow> r' < comb_with_replacement (n - j) k \<Longrightarrow>
   with_replacement_unrank_loop (r' + wr_preceding n k j - wr_preceding n k i) n k i = (r', j)"
proof (induction "nat (j - i)" arbitrary: i)
  case 0
  then have "i = j" by simp
  then show ?case using 0 by (subst with_replacement_unrank_loop.simps) (simp add: Let_def)
next
  case (Suc m)
  then have lt: "i < j" by simp
  have ih: "with_replacement_unrank_loop (r' + wr_preceding n k j - wr_preceding n k (i + 1)) n k (i + 1) = (r', j)"
    using Suc(1)[of "i + 1"] Suc(2-) lt by simp
  have mono: "wr_preceding n k (i + 1) \<le> wr_preceding n k j"
  proof -
    have "\<And>d. 0 \<le> wr_preceding n k (i + 1 + int d) - wr_preceding n k (i + 1)"
    proof -
      fix d show "0 \<le> wr_preceding n k (i + 1 + int d) - wr_preceding n k (i + 1)"
      proof (induction d)
        case 0 then show ?case by simp
      next
        case (Suc d)
        have "wr_preceding n k (i + 1 + int d + 1) = wr_preceding n k (i + 1 + int d) + comb_with_replacement (n - (i + 1 + int d)) k"
          using \<open>0 \<le> i\<close> by (intro wr_preceding_Suc) simp
        then show ?case using Suc cwr_pos[of "n - (i + 1 + int d)" k] by (simp add: algebra_simps)
      qed
    qed
    from this[of "nat (j - (i + 1))"] show ?thesis using lt by simp
  qed
  have ge: "comb_with_replacement (n - i) k \<le> r' + wr_preceding n k j - wr_preceding n k i"
    using mono wr_preceding_Suc[of i n k] Suc(3) Suc(5) by simp
  show ?case
    apply (subst with_replacement_unrank_loop.simps)
    using ge ih wr_preceding_Suc[of i n k] Suc(3) by (simp add: Let_def algebra_simps)
qed

lemma wr_rank_unrank:
  "0 \<le> r \<Longrightarrow> r < comb_with_replacement n (int k) \<Longrightarrow>
   with_replacement_rank (with_replacement_unrank r n k) n = r"
proof (induction k arbitrary: r n)
  case 0
  then show ?case by simp
next
  case (Suc k)
  obtain r' i' where l: "with_replacement_unrank_loop r n (int k) 0 = (r', i')" by force
  from wr_unrank_loop_sound[OF Suc(2) _ l]
  have s: "0 \<le> i'" "0 \<le> r'" "r' < comb_with_replacement (n - i') (int k)" "r = r' + wr_preceding n (int k) i'"
    by simp_all
  have ih: "with_replacement_rank (with_replacement_unrank r' (n - i') k) (n - i') = r'"
    using Suc(1) s by simp
  have "map (\<lambda>x. x - i') (map (\<lambda>x. x + i') (with_replacement_unrank r' (n - i') k)) = with_replacement_unrank r' (n - i') k"
    by (simp add: comp_def)
  then show ?case
    using l s ih by (simp add: with_replacement_rank_Cons)
qed

lemma wr_unrank_rank:
  "sorted c \<Longrightarrow> \<forall>v\<in>set c. 0 \<le> v \<and> v < n \<Longrightarrow>
   with_replacement_unrank (with_replacement_rank c n) n (length c) = c \<and>
   0 \<le> with_replacement_rank c n \<and> with_replacement_rank c n < comb_with_replacement n (int (length c))"
proof (induction "length c" arbitrary: c n)
  case 0
  then show ?case by simp
next
  case (Suc m)
  then obtain j xs where c: "c = j # xs" "m = length xs" by (cases c) auto
  note Cons = Suc(1) Suc(3)[unfolded c] Suc(4)[unfolded c]
  define xs' where "xs' = map (\<lambda>x. x - j) xs"
  define r' where "r' = with_replacement_rank xs' (n - j)"
  have j: "0 \<le> j" "j < n" using Cons(3) by auto
  have "sorted xs'" using Cons(2) by (auto simp: xs'_def sorted_map intro!: sorted_wrt_mono_rel[of xs "(\<le>)"])
  moreover have "\<forall>v\<in>set xs'. 0 \<le> v \<and> v < n - j" using Cons(2,3) by (auto simp: xs'_def)
  ultimately have ih: "with_replacement_unrank r' (n - j) (length xs') = xs'" "0 \<le> r'"
      "r' < comb_with_replacement (n - j) (int (length xs'))"
    using Cons(1)[of xs' "n - j"] c by (simp_all add: r'_def xs'_def)
  have len: "length xs' = length xs" by (simp add: xs'_def)
  have r: "with_replacement_rank (j # xs) n = wr_preceding n (int (length xs)) j + r'"
    using with_replacement_rank_Cons[OF j(1)] by (simp add: r'_def xs'_def)
  have loop: "with_replacement_unrank_loop (with_replacement_rank (j # xs) n) n (int (length xs)) 0 = (r', j)"
    using wr_unrank_loop_complete[of 0 j r' n "int (length xs)"] ih j len unfolding r by (simp add: add.commute)
  have bk: "map (\<lambda>x. x + j) xs' = xs" by (simp add: xs'_def comp_def)
  have u: "with_replacement_unrank (with_replacement_rank (j # xs) n) n (length (j # xs)) = j # xs"
    using loop ih(1) len bk by simp
  have "wr_preceding n (int (length xs)) j + r' < wr_preceding n (int (length xs)) (j + 1)"
    using wr_preceding_Suc[OF j(1), of n "int (length xs)"] ih(3) len by simp
  also have "\<dots> \<le> comb_with_replacement n (int (length xs) + 1)"
    using j by (intro wr_preceding_le) auto
  finally have ub: "with_replacement_rank (j # xs) n < comb_with_replacement n (int (length (j # xs)))"
    unfolding r by (simp add: add.commute)
  have "0 \<le> with_replacement_rank (j # xs) n"
    unfolding r using wr_preceding_nonneg[OF j(1)] ih(2) by simp
  then show ?case using u ub unfolding c by simp
qed


lemma Combination_unrank_0 [simp]: "Combination_unrank r es 0 = []"
  by (subst Combination_unrank.simps) simp

lemma Combination_unrank_Cons:
  "Combination_unrank r (e # es) (Suc k) =
     (if r < comb (int (length es)) (int k) then e # Combination_unrank r es k
      else Combination_unrank (r - comb (int (length es)) (int k)) es (Suc k))"
  by (subst Combination_unrank.simps) (simp add: Let_def)

lemma Combination_unrank_Nil: "Combination_unrank r [] k = []"
proof (induction "k + nat r" arbitrary: r k rule: less_induct)
  case less
  show ?case
  proof (cases k)
    case 0
    then show ?thesis by simp
  next
    case (Suc k')
    have c: "comb (- 1) (int k') = 1" by (simp add: comb_eq)
    show ?thesis
    proof (cases "r < 1")
      case True
      then show ?thesis using less[of k' r] Suc c
        by (subst Combination_unrank.simps) (simp add: Let_def)
    next
      case False
      then have "k + nat (r - 1) < k + nat r" by simp
      then show ?thesis using less[of k "r - 1"] Suc c False
        by (subst Combination_unrank.simps) (simp add: Let_def)
    qed
  qed
qed

lemma Combination_unrank_subseq: "subseq (Combination_unrank r es k) es"
proof (induction es arbitrary: r k)
  case Nil
  then show ?case by (simp add: Combination_unrank_Nil)
next
  case (Cons e es)
  show ?case
  proof (cases k)
    case 0 then show ?thesis by simp
  next
    case (Suc k')
    then show ?thesis using Cons by (auto simp: Combination_unrank_Cons)
  qed
qed

lemma Combination_unrank_length:
  "k \<le> length es \<Longrightarrow> 0 \<le> r \<Longrightarrow> r < comb (int (length es)) (int k) \<Longrightarrow>
   length (Combination_unrank r es k) = k"
proof (induction es arbitrary: r k)
  case Nil
  then show ?case by simp
next
  case (Cons e es)
  show ?case
  proof (cases k)
    case 0 then show ?thesis by simp
  next
    case (Suc k')
    show ?thesis
    proof (cases "r < comb (int (length es)) (int k')")
      case True
      then show ?thesis using Cons Suc by (simp add: Combination_unrank_Cons)
    next
      case False
      have kn: "k \<noteq> length (e # es)"
      proof
        assume "k = length (e # es)"
        then have "comb (int (length es)) (int k') = 1" "comb (int (length (e # es))) (int k) = 1"
          using Suc by simp_all
        then show False using False Cons(4) by simp
      qed
      then have k: "k \<le> length es" using Cons(2) by simp
      have "comb (int (length (e # es))) (int k) =
            comb (int (length (e # es)) - 1) (int k - 1) + comb (int (length (e # es)) - 1) (int k)"
        using Suc k by (intro comb_pascal) auto
      then have "r - comb (int (length es)) (int k') < comb (int (length es)) (int k)"
        using Cons(4) Suc by simp
      then show ?thesis using Cons(1)[of k "r - comb (int (length es)) (int k')"] k False Suc
        by (simp add: Combination_unrank_Cons)
    qed
  qed
qed

lemma list_index_nonneg: "list_index es y = Inr i \<Longrightarrow> 0 \<le> i"
  by (induction es arbitrary: i) (auto simp: bindE_def split: if_splits sum.splits)

lemma mapE_list_index_nonneg: "mapE (list_index es) x = Inr idx \<Longrightarrow> \<forall>i\<in>set idx. 0 \<le> i"
  by (induction x arbitrary: idx) (auto simp: bindE_def split: sum.splits dest: list_index_nonneg)

lemma mapE_length: "mapE f xs = Inr ys \<Longrightarrow> length ys = length xs"
  by (induction xs arbitrary: ys) (auto simp: bindE_def split: sum.splits)

lemma mapE_list_index_Cons:
  "e \<notin> set x \<Longrightarrow> mapE (list_index es) x = Inr idx \<Longrightarrow>
   mapE (list_index (e # es)) x = Inr (map (\<lambda>i. i + 1) idx)"
  by (induction x arbitrary: idx) (auto simp: bindE_def split: sum.splits)

lemma from_range_rank_Nil [simp]: "from_range_rank [] n = Some 0"
  by (subst from_range_rank.simps) simp

lemma from_range_rank_full: "int (length c) = n \<Longrightarrow> from_range_rank c n = Some 0"
  by (subst from_range_rank.simps) simp

lemma from_range_rank_with_first:
  "int (length idx) + 1 \<noteq> n \<Longrightarrow>
   from_range_rank (0 # map (\<lambda>i. i + 1) idx) n = from_range_rank idx (n - 1)"
  by (subst from_range_rank.simps) (simp add: Let_def comp_def)

lemma from_range_rank_without_first:
  "idx \<noteq> [] \<Longrightarrow> 0 \<le> hd idx \<Longrightarrow> int (length idx) \<noteq> n \<Longrightarrow>
   from_range_rank (map (\<lambda>i. i + 1) idx) n =
     Option.bind (from_range_rank idx (n - 1))
       (\<lambda>rest_rank. Some (comb (n - 1) (int (length idx) - 1) + rest_rank))"
  by (subst from_range_rank.simps) (simp add: Let_def comp_def hd_map)


lemma subseq_notin: "subseq x es \<Longrightarrow> e \<notin> set es \<Longrightarrow> e \<notin> set x"
  by (induction rule: list_emb.induct) auto

lemma Combination_unrank_all: "Combination_unrank 0 es (length es) = es"
  by (induction es) (simp_all add: Combination_unrank_Cons)

lemma comb_pascal_le:
  assumes "0 < k" "k < n"
  shows "comb (n - 1) (k - 1) + 1 \<le> comb n k"
  using comb_pascal[OF assms] comb_pos[of "n - 1" k] by simp

lemma Combination_rank_unrank_subseq:
  "distinct es \<Longrightarrow> subseq x es \<Longrightarrow>
   \<exists>idx r. mapE (list_index es) x = Inr idx \<and> from_range_rank idx (int (length es)) = Some r \<and>
     0 \<le> r \<and> r < comb (int (length es)) (int (length x)) \<and>
     Combination_unrank r es (length x) = x"
proof (induction es arbitrary: x)
  case Nil
  then have "x = []" by simp
  then show ?case by simp
next
  case (Cons e es)
  have e: "e \<notin> set es" "distinct es" using Cons(2) by simp_all
  show ?case
  proof (cases x)
    case Nil
    then show ?thesis by simp
  next
    case (Cons y x')
    show ?thesis
    proof (cases "y = e")
      case True
      then have sub: "subseq x' es" using Cons.prems(2) Cons by simp
      then have ex': "e \<notin> set x'" using e(1) by (rule subseq_notin)
      from Cons.IH[OF e(2) sub] obtain idx r where ih:
        "mapE (list_index es) x' = Inr idx" "from_range_rank idx (int (length es)) = Some r"
        "0 \<le> r" "r < comb (int (length es)) (int (length x'))" "Combination_unrank r es (length x') = x'"
        by blast
      have len: "length idx = length x'" using ih(1) by (rule mapE_length)
      have m: "mapE (list_index (e # es)) x = Inr (0 # map (\<lambda>i. i + 1) idx)"
        using mapE_list_index_Cons[OF ex' ih(1)] Cons True by simp
      show ?thesis
      proof (cases "length x = length (e # es)")
        case True
        then have "x' = es" using sub Cons by (simp add: subseq_same_length)
        moreover have "from_range_rank (0 # map (\<lambda>i. i + 1) idx) (int (length (e # es))) = Some 0"
          using True len Cons by (intro from_range_rank_full) simp
        ultimately have x: "x = e # es"
          and f0: "from_range_rank (0 # map (\<lambda>i. i + 1) idx) (int (length (e # es))) = Some 0"
          using Cons \<open>y = e\<close> by simp_all
        have u0: "Combination_unrank 0 (e # es) (length x) = x"
          unfolding x by (rule Combination_unrank_all)
        have "(0::int) < comb (int (length (e # es))) (int (length x))"
          unfolding x by simp
        then show ?thesis using m f0 u0 by blast
      next
        case False
        then have lt: "length x' < length es"
          using list_emb_length[OF sub] Cons by simp
        have f: "from_range_rank (0 # map (\<lambda>i. i + 1) idx) (int (length (e # es))) = Some r"
          using from_range_rank_with_first[of idx "int (length (e # es))"] False len Cons ih(2) by simp
        have "comb (int (length (e # es)) - 1) (int (length x) - 1) + 1 \<le> comb (int (length (e # es))) (int (length x))"
          using lt Cons by (intro comb_pascal_le) auto
        then have ub: "r < comb (int (length (e # es))) (int (length x))"
          using ih(4) Cons by simp
        have "Combination_unrank r (e # es) (length x) = x"
          using ih(4,5) Cons \<open>y = e\<close> by (simp add: Combination_unrank_Cons)
        then show ?thesis using m f ih(3) ub by blast
      qed
    next
      case False
      then have sub: "subseq x es" using Cons.prems(2) Cons by simp
      then have ex: "e \<notin> set x" using e(1) by (rule subseq_notin)
      from Cons.IH[OF e(2) sub] obtain idx r where ih:
        "mapE (list_index es) x = Inr idx" "from_range_rank idx (int (length es)) = Some r"
        "0 \<le> r" "r < comb (int (length es)) (int (length x))" "Combination_unrank r es (length x) = x"
        by blast
      have len: "length idx = length x" using ih(1) by (rule mapE_length)
      have le: "length x \<le> length es" using list_emb_length[OF sub] .
      have m: "mapE (list_index (e # es)) x = Inr (map (\<lambda>i. i + 1) idx)"
        using mapE_list_index_Cons[OF ex ih(1)] .
      have ne: "idx \<noteq> []" using len Cons by auto
      have hd0: "0 \<le> hd idx" using mapE_list_index_nonneg[OF ih(1)] ne by simp
      have f: "from_range_rank (map (\<lambda>i. i + 1) idx) (int (length (e # es))) =
               Some (comb (int (length es)) (int (length x) - 1) + r)"
        using from_range_rank_without_first[OF ne hd0, of "int (length (e # es))"] len le ih(2) by simp
      have p: "comb (int (length (e # es))) (int (length x)) =
               comb (int (length (e # es)) - 1) (int (length x) - 1) + comb (int (length (e # es)) - 1) (int (length x))"
        using le Cons by (intro comb_pascal) auto
      obtain k' where k': "length x = Suc k'" using Cons by simp
      have "Combination_unrank (comb (int (length es)) (int (length x) - 1) + r) (e # es) (length x) = x"
        using ih(3,5) k' by (simp add: Combination_unrank_Cons)
      moreover have "0 \<le> comb (int (length es)) (int (length x) - 1) + r"
        using ih(3) comb_pos[of "int (length es)" "int (length x) - 1"] by simp
      moreover have "comb (int (length es)) (int (length x) - 1) + r < comb (int (length (e # es))) (int (length x))"
        using p ih(4) by simp
      ultimately show ?thesis using m f by blast
    qed
  qed
qed

lemma Combination_unrank_rank_core:
  "distinct es \<Longrightarrow> k \<le> length es \<Longrightarrow> 0 \<le> r \<Longrightarrow> r < comb (int (length es)) (int k) \<Longrightarrow>
   \<exists>idx. mapE (list_index es) (Combination_unrank r es k) = Inr idx \<and>
         from_range_rank idx (int (length es)) = Some r"
proof (induction es arbitrary: r k)
  case Nil
  then show ?case by simp
next
  case (Cons e es)
  have e: "e \<notin> set es" "distinct es" using Cons(2) by simp_all
  show ?case
  proof (cases k)
    case 0
    then show ?thesis using Cons(4,5) by simp
  next
    case (Suc k')
    show ?thesis
    proof (cases "r < comb (int (length es)) (int k')")
      case True
      define u where "u = Combination_unrank r es k'"
      have k': "k' \<le> length es" using Cons(3) Suc by simp
      from Cons.IH[OF e(2) k' Cons(4) True] obtain idx where ih:
        "mapE (list_index es) u = Inr idx" "from_range_rank idx (int (length es)) = Some r"
        unfolding u_def by blast
      have lu: "length u = k'" unfolding u_def using k' Cons(4) True by (rule Combination_unrank_length)
      have len: "length idx = k'" using mapE_length[OF ih(1)] lu by simp
      have "e \<notin> set u" unfolding u_def using Combination_unrank_subseq e(1) by (rule subseq_notin)
      then have m: "mapE (list_index (e # es)) (e # u) = Inr (0 # map (\<lambda>i. i + 1) idx)"
        using mapE_list_index_Cons[OF _ ih(1)] by simp
      have f: "from_range_rank (0 # map (\<lambda>i. i + 1) idx) (int (length (e # es))) = Some r"
      proof (cases "k = length (e # es)")
        case True
        then have "comb (int (length (e # es))) (int k) = 1" by simp
        then have "r = 0" using Cons(4,5) by simp
        then show ?thesis using True len Suc by (simp add: from_range_rank_full)
      next
        case False
        then show ?thesis
          using from_range_rank_with_first[of idx "int (length (e # es))"] len Suc ih(2) by simp
      qed
      have eq: "Combination_unrank r (e # es) k = e # u"
        using True Suc by (simp add: Combination_unrank_Cons u_def)
      show ?thesis unfolding eq using m f by blast
    next
      case False
      define r' where "r' = r - comb (int (length es)) (int k')"
      define u where "u = Combination_unrank r' es k"
      have kn: "k \<noteq> length (e # es)"
      proof
        assume "k = length (e # es)"
        then have "comb (int (length es)) (int k') = 1" "comb (int (length (e # es))) (int k) = 1"
          using Suc by simp_all
        then show False using False Cons(5) by simp
      qed
      then have k: "k \<le> length es" using Cons(3) by simp
      have "comb (int (length (e # es))) (int k) =
            comb (int (length (e # es)) - 1) (int k - 1) + comb (int (length (e # es)) - 1) (int k)"
        using Suc k by (intro comb_pascal) auto
      then have r': "0 \<le> r'" "r' < comb (int (length es)) (int k)"
        using Cons(5) Suc False by (simp_all add: r'_def)
      from Cons.IH[OF e(2) k r'] obtain idx where ih:
        "mapE (list_index es) u = Inr idx" "from_range_rank idx (int (length es)) = Some r'"
        unfolding u_def by blast
      have lu: "length u = k" unfolding u_def using k r' by (rule Combination_unrank_length)
      have len: "length idx = k" using mapE_length[OF ih(1)] lu by simp
      have "e \<notin> set u" unfolding u_def using Combination_unrank_subseq e(1) by (rule subseq_notin)
      then have m: "mapE (list_index (e # es)) u = Inr (map (\<lambda>i. i + 1) idx)"
        using mapE_list_index_Cons[OF _ ih(1)] by simp
      have ne: "idx \<noteq> []" using len Suc by auto
      have hd0: "0 \<le> hd idx" using mapE_list_index_nonneg[OF ih(1)] ne by simp
      have f: "from_range_rank (map (\<lambda>i. i + 1) idx) (int (length (e # es))) = Some r"
        using from_range_rank_without_first[OF ne hd0, of "int (length (e # es))"] len k ih(2) Suc
        by (simp add: r'_def)
      have eq: "Combination_unrank r (e # es) k = u"
        using False Suc by (simp add: Combination_unrank_Cons u_def r'_def)
      show ?thesis unfolding eq using m f by blast
    qed
  qed
qed

text \<open>
  Claim C2. A combination of \<^verbatim>\<open>elements\<close> (with distinct entries) is a subsequence
  \<open>x\<close> of it; a combination with replacement of \<open>{0, ..., n - 1}\<close> is a
  non-decreasing list \<open>c\<close> over that range. For both kinds, the rank of a valid
  combination lies in \<open>[0, count)\<close> and unranking it gives the combination back, and
  ranking the combination unranked from any \<open>r\<close> in \<open>[0, count)\<close> gives \<open>r\<close> back,
  where \<open>count\<close> is \<^verbatim>\<open>comb(n, k)\<close> and \<^verbatim>\<open>comb_with_replacement(n, k)\<close>.
\<close>

theorem C2_rank_unrank_inverse:
  "(distinct elements \<and> subseq x elements \<longrightarrow>
      (\<exists>r. Combination_rank x elements = Inr r \<and> 0 \<le> r \<and>
           r < comb (int (length elements)) (int (length x)) \<and>
           Combination_unrank r elements (length x) = x)) \<and>
   (distinct elements \<and> k \<le> length elements \<and> 0 \<le> r \<and> r < comb (int (length elements)) (int k) \<longrightarrow>
      Combination_rank (Combination_unrank r elements k) elements = Inr r) \<and>
   (sorted c \<and> (\<forall>v\<in>set c. 0 \<le> v \<and> v < n) \<longrightarrow>
      0 \<le> with_replacement_rank c n \<and>
      with_replacement_rank c n < comb_with_replacement n (int (length c)) \<and>
      with_replacement_unrank (with_replacement_rank c n) n (length c) = c) \<and>
   (0 \<le> r \<and> r < comb_with_replacement n (int k) \<longrightarrow>
      with_replacement_rank (with_replacement_unrank r n k) n = r)"
proof (intro conjI impI)
  assume a: "distinct elements \<and> subseq x elements"
  from Combination_rank_unrank_subseq[of elements x] a
  show "\<exists>r. Combination_rank x elements = Inr r \<and> 0 \<le> r \<and>
           r < comb (int (length elements)) (int (length x)) \<and>
           Combination_unrank r elements (length x) = x"
    by (auto simp: Combination_rank_def)
next
  assume a: "distinct elements \<and> k \<le> length elements \<and> 0 \<le> r \<and> r < comb (int (length elements)) (int k)"
  from Combination_unrank_rank_core[of elements k r] a
  show "Combination_rank (Combination_unrank r elements k) elements = Inr r"
    by (auto simp: Combination_rank_def)
next
  assume a: "sorted c \<and> (\<forall>v\<in>set c. 0 \<le> v \<and> v < n)"
  then show "0 \<le> with_replacement_rank c n"
    "with_replacement_rank c n < comb_with_replacement n (int (length c))"
    "with_replacement_unrank (with_replacement_rank c n) n (length c) = c"
    using wr_unrank_rank[of c n] by simp_all
next
  assume "0 \<le> r \<and> r < comb_with_replacement n (int k)"
  then show "with_replacement_rank (with_replacement_unrank r n k) n = r"
    using wr_rank_unrank[of r n k] by simp
qed

theorem C2_rank_unrank_inverse_witness:
  "(distinct [10, 20, 30, 40 :: int] \<and> subseq [20, 40] [10, 20, 30, 40 :: int]) \<and>
   (\<exists>r. Combination_rank [20, 40] [10, 20, 30, 40 :: int] = Inr r \<and> 0 \<le> r \<and>
        r < comb (int (length [10, 20, 30, 40 :: int])) (int (length [20, 40 :: int])) \<and>
        Combination_unrank r [10, 20, 30, 40 :: int] (length [20, 40 :: int]) = [20, 40]) \<and>
   (distinct [10, 20, 30, 40 :: int] \<and> (2::nat) \<le> length [10, 20, 30, 40 :: int] \<and> (0::int) \<le> 4 \<and>
      (4::int) < comb (int (length [10, 20, 30, 40 :: int])) (int 2)) \<and>
   Combination_rank (Combination_unrank 4 [10, 20, 30, 40 :: int] 2) [10, 20, 30, 40] = Inr 4 \<and>
   (sorted [1, 1, 2 :: int] \<and> list_all (\<lambda>v. 0 \<le> v \<and> v < 3) [1, 1, 2 :: int]) \<and>
   with_replacement_unrank (with_replacement_rank [1, 1, 2] 3) 3 (length [1, 1, 2 :: int]) = [1, 1, 2] \<and>
   ((0::int) \<le> 4 \<and> (4::int) < comb_with_replacement 3 (int 2)) \<and>
   with_replacement_rank (with_replacement_unrank 4 3 2) 3 = 4 \<and>
   Combination_unrank 4 [10, 20, 30, 40 :: int] 2 = [20, 40] \<and>
   with_replacement_rank [1, 1, 2] 3 = 7"
proof -
  have h1: "distinct [10, 20, 30, 40 :: int] \<and> subseq [20, 40] [10, 20, 30, 40 :: int]" by simp
  have h2: "distinct [10, 20, 30, 40 :: int] \<and> (2::nat) \<le> length [10, 20, 30, 40 :: int] \<and> (0::int) \<le> 4 \<and>
            (4::int) < comb (int (length [10, 20, 30, 40 :: int])) (int 2)" by code_simp
  have h3: "sorted [1, 1, 2 :: int] \<and> (\<forall>v\<in>set [1, 1, 2 :: int]. 0 \<le> v \<and> v < 3)" by simp
  have h3': "sorted [1, 1, 2 :: int] \<and> list_all (\<lambda>v. 0 \<le> v \<and> v < 3) [1, 1, 2 :: int]" by simp
  have h4: "(0::int) \<le> 4 \<and> (4::int) < comb_with_replacement 3 (int 2)" by code_simp
  have e1: "Combination_unrank 4 [10, 20, 30, 40 :: int] 2 = [20, 40]" by code_simp
  have e2: "with_replacement_rank [1, 1, 2] 3 = 7" by code_simp
  note t = C2_rank_unrank_inverse[of "[10, 20, 30, 40 :: int]" "[20, 40]" 2 4 "[1, 1, 2]" 3]
  have a: "\<exists>r. Combination_rank [20, 40] [10, 20, 30, 40 :: int] = Inr r \<and> 0 \<le> r \<and>
           r < comb (int (length [10, 20, 30, 40 :: int])) (int (length [20, 40 :: int])) \<and>
           Combination_unrank r [10, 20, 30, 40 :: int] (length [20, 40 :: int]) = [20, 40]"
    using t h1 by blast
  have b: "Combination_rank (Combination_unrank 4 [10, 20, 30, 40 :: int] 2) [10, 20, 30, 40] = Inr 4"
    using t h2 by blast
  have c: "with_replacement_unrank (with_replacement_rank [1, 1, 2] 3) 3 (length [1, 1, 2 :: int]) = [1, 1, 2]"
    using t h3 by blast
  have d: "with_replacement_rank (with_replacement_unrank 4 3 2) 3 = 4"
    using t h4 by blast
  show ?thesis
    by (intro conjI h1[THEN conjunct1] h1[THEN conjunct2] a h2[THEN conjunct1]
          h2[THEN conjunct2, THEN conjunct1] h2[THEN conjunct2, THEN conjunct2, THEN conjunct1]
          h2[THEN conjunct2, THEN conjunct2, THEN conjunct2] b h3[THEN conjunct1]
          h3'[THEN conjunct2] c h4[THEN conjunct1] h4[THEN conjunct2] d e1 e2)
qed

subsection \<open>Unranking with a rank that is out of range\<close>

text \<open>
  Auxiliary facts: when a chain of calls returns, every call in it returned; and the
  groups of \<^verbatim>\<open>group_by\<close> are the maximal runs of elements equal to the first of
  the run.
\<close>


lemma bindE_eq_Inr: "(bindE m f = Inr y) = (\<exists>v. m = Inr v \<and> f v = Inr y)"
  by (cases m) auto

lemma mapE_all_Inr: "mapE f xs = Inr ys \<Longrightarrow> x \<in> set xs \<Longrightarrow> \<exists>y. f x = Inr y"
  by (induction xs arbitrary: ys) (auto simp: bindE_eq_Inr)

lemma mapE_append_Inr:
  "mapE f (xs @ ys) = Inr zs \<Longrightarrow> \<exists>zs1 zs2. mapE f xs = Inr zs1 \<and> mapE f ys = Inr zs2 \<and> zs = zs1 @ zs2"
  by (induction xs arbitrary: zs) (auto simp: bindE_eq_Inr)

lemma group_by_loop_prefix:
  "group_by_loop eq xs (gs @ gs') c = gs @ group_by_loop eq xs gs' c"
  by (induction eq xs gs' c rule: group_by_loop.induct) auto

lemma group_by_loop_run:
  "c \<noteq> [] \<Longrightarrow>
   group_by_loop eq xs gs c =
     gs @ (c @ takeWhile (\<lambda>y. eq y (hd c)) xs) # group_by_loop eq (dropWhile (\<lambda>y. eq y (hd c)) xs) [] []"
proof (induction xs arbitrary: gs c)
  case Nil
  then show ?case by simp
next
  case (Cons x xs)
  show ?case
  proof (cases "eq x (hd c)")
    case True
    then show ?thesis using Cons(1)[of "c @ [x]" gs] Cons(2) by simp
  next
    case False
    have "group_by_loop eq xs (gs @ [c]) [x] = (gs @ [c]) @ group_by_loop eq xs [] [x]"
      using group_by_loop_prefix[of eq xs "gs @ [c]" "[]" "[x]"] by simp
    then show ?thesis using False Cons(2) by simp
  qed
qed

lemma group_by_Nil [simp]: "group_by [] eq = []"
  by (simp add: group_by_def)

lemma group_by_Cons:
  "group_by (x # xs) eq =
     (x # takeWhile (\<lambda>y. eq y x) xs) # group_by (dropWhile (\<lambda>y. eq y x) xs) eq"
  unfolding group_by_def using group_by_loop_run[of "[x]" eq xs "[]"] by simp

lemma group_by_members:
  "g \<in> set (group_by xs eq) \<Longrightarrow> y \<in> set (tl g) \<Longrightarrow> eq y (hd g)"
proof (induction "length xs" arbitrary: xs rule: less_induct)
  case less
  show ?case
  proof (cases xs)
    case Nil
    then show ?thesis using less(2) by simp
  next
    case (Cons x xs')
    have l: "length (dropWhile (\<lambda>y. eq y x) xs') < length xs"
      using Cons length_dropWhile_le[of "\<lambda>y. eq y x" xs'] by simp
    from less(2) consider "g = x # takeWhile (\<lambda>y. eq y x) xs'"
      | "g \<in> set (group_by (dropWhile (\<lambda>y. eq y x) xs') eq)"
      unfolding Cons group_by_Cons by auto
    then show ?thesis
    proof cases
      case 1
      then show ?thesis using less(3) by (auto dest: set_takeWhileD)
    next
      case 2
      then show ?thesis using less(1)[OF l] less(3) by blast
    qed
  qed
qed

text \<open>
  \<open>wf_shape t\<close>: the field \<^verbatim>\<open>num_leaves\<close> of every node of \<open>t\<close> is what
  \<^verbatim>\<open>RankTree.__init__\<close> computes, \<open>1\<close> at a leaf and the sum over the children
  elsewhere. The trees that \<^verbatim>\<open>shape_unrank\<close> returns are of this kind, and the
  tree for \<open>n\<close> leaves has \<open>n\<close> leaves.
\<close>

fun wf_shape :: "'a rank_tree \<Rightarrow> bool" where
  "wf_shape (RankTree cs nl ls sr lr) =
     (if cs = [] then nl = 1 else nl = sum_list (map num_leaves cs) \<and> (\<forall>c\<in>set cs. wf_shape c))"

lemma wf_shape_pos: "wf_shape t \<Longrightarrow> 1 \<le> num_leaves t"
proof (induction t)
  case (RankTree cs nl ls sr lr)
  show ?case
  proof (cases "cs = []")
    case True
    then show ?thesis using RankTree(2) by simp
  next
    case False
    then obtain c cs' where cs: "cs = c # cs'" by (cases cs) auto
    have "\<forall>u\<in>set (map num_leaves cs). 0 < u" using RankTree False by fastforce
    then have "0 < sum_list (map num_leaves cs)" using sum_list_pos_parts[of "map num_leaves cs"] False by simp
    then show ?thesis using RankTree(2) False by simp
  qed
qed

lemma children_shape_ranks_groups_length:
  "children_shape_ranks_groups part gp nc r cr = Inr out \<Longrightarrow>
   length out = length cr + length (concat gp)"
  by (induction gp arbitrary: nc r cr)
     (auto simp: bindE_eq_Inr Let_def)

lemma children_shape_ranks_result:
  assumes "children_shape_ranks r n = Inr (part, child_ranks)"
  shows "length child_ranks = length part" "is_partition_of n part" "1 < n"
proof -
  obtain parts v where p: "partition_asc n = Inr parts" "children_shape_ranks_part r parts 0 = Inr (Some part, v)"
    and g: "children_shape_ranks_groups part (group_partition part) 0 (r - v) [] = Inr child_ranks"
    and n: "1 < n"
    using assms unfolding children_shape_ranks_def
    by (auto simp: bindE_eq_Inr assertE_def split: option.splits if_splits prod.splits)
  show "1 < n" by (rule n)
  have "part \<in> set parts" using p(2) by (rule children_shape_ranks_part_in)
  then show "is_partition_of n part" using p(1) n partition_set[of n] by (auto simp: partition_eq)
  show "length child_ranks = length part"
    using children_shape_ranks_groups_length[OF g] by (simp add: group_partition_def group_by_concat)
qed

lemma mapE_zip_shape:
  assumes "length rks = length part"
    and "mapE (\<lambda>(rk, k). shape_unrank rk k) (zip rks part) = Inr cs"
    and "\<And>rk k t. (rk, k) \<in> set (zip rks part) \<Longrightarrow> shape_unrank rk k = Inr t \<Longrightarrow> P t \<and> num_leaves t = k"
  shows "map num_leaves cs = part \<and> (\<forall>c\<in>set cs. P c)"
  using assms
proof (induction rks part arbitrary: cs rule: list_induct2)
  case Nil
  then show ?case by simp
next
  case (Cons r rks k part)
  from Cons(3) obtain t ts where t: "shape_unrank r k = Inr t" "mapE (\<lambda>(rk, k). shape_unrank rk k) (zip rks part) = Inr ts" "cs = t # ts"
    by (auto simp: bindE_eq_Inr)
  have "P t \<and> num_leaves t = k" using Cons(4)[of r k t] t(1) by simp
  moreover have "map num_leaves ts = part \<and> (\<forall>c\<in>set ts. P c)"
    using Cons(2)[OF t(2)] Cons(4) by auto
  ultimately show ?case using t(3) by simp
qed

lemma shape_unrank_wf:
  "shape_unrank sr n = Inr t \<Longrightarrow> wf_shape t \<and> num_leaves t = n"
proof (induction sr n arbitrary: t rule: shape_unrank.induct)
  case (1 sr n)
  show ?case
  proof (cases "n = 1")
    case True
    then show ?thesis using 1(2)
      by (subst (asm) shape_unrank.simps) (auto simp: bindE_eq_Inr RankTree_leaf_def)
  next
    case False
    from 1(2) False obtain part rks cs where
      c: "children_shape_ranks sr n = Inr (part, rks)"
      and m: "mapE (\<lambda>(rk, k). shape_unrank rk k) (zip rks part) = Inr cs"
      and r: "RankTree_node (Some sr) None cs = Inr t"
      by (subst (asm) shape_unrank.simps) (auto simp: bindE_eq_Inr)
    have l: "length rks = length part" and p: "is_partition_of n part" and n: "1 < n"
      using children_shape_ranks_result[OF c] by auto
    have "map num_leaves cs = part \<and> (\<forall>c\<in>set cs. wf_shape c)"
      using l m
    proof (rule mapE_zip_shape)
      fix rk k t' assume "(rk, k) \<in> set (zip rks part)" "shape_unrank rk k = Inr t'"
      then show "wf_shape t' \<and> num_leaves t' = k"
        using 1(1)[OF False c refl _ refl, of rk k t'] by simp
    qed
    then have mp: "map num_leaves cs = part" and w: "\<forall>c\<in>set cs. wf_shape c" by auto
    have s: "sum_list part = n" using p by (simp add: is_partition_of_def)
    have ne: "cs \<noteq> []" using mp s n by auto
    have t: "t = RankTree cs (sum_list (map num_leaves cs)) (py_merge (map labels cs)) sr None"
      using r by (simp add: RankTree_node_def Let_def)
    show ?thesis unfolding t using ne w mp s by simp
  qed
qed


text \<open>
  The counts of labellings are products of values of \<^verbatim>\<open>comb\<close> and of powers of
  counts, so they are at least \<open>1\<close> whenever they are returned.
\<close>

lemma int_mult_ge1: "(1::int) \<le> a \<Longrightarrow> 1 \<le> b \<Longrightarrow> 1 \<le> a * b"
  using mult_mono[of 1 a 1 b] by simp

lemma int_power_ge1: "(1::int) \<le> a \<Longrightarrow> 1 \<le> a ^ n"
  by (induction n) (auto intro: int_mult_ge1)

lemma foldl_comb_pos:
  "1 \<le> tot \<Longrightarrow> 1 \<le> foldl (\<lambda>tot n. tot * comb (n - 1) (k - 1)) tot ns"
  by (induction ns arbitrary: tot) (auto intro: int_mult_ge1 comb_pos)

lemma num_assignments_in_group_pos: "num_assignments_in_group g = Inr c \<Longrightarrow> 1 \<le> c"
  by (auto simp: num_assignments_in_group_def Let_def bindE_eq_Inr foldl_comb_pos split: if_splits)

lemma num_labellings_pos:
  fixes t :: "'a rank_tree" and groups groups1 :: "'a rank_tree list list" and g :: "'a rank_tree list"
  shows "\<forall>c. num_labellings t = Inr c \<longrightarrow> 1 \<le> c"
  "\<forall>c. num_list_of_group_labellings groups = Inr c \<longrightarrow> 1 \<le> c"
  "\<forall>c. 1 \<le> tot \<longrightarrow> num_list_of_group_labellings_loop groups1 r tot = Inr c \<longrightarrow> 1 \<le> c"
  "\<forall>c. num_group_labellings g = Inr c \<longrightarrow> 1 \<le> c"
proof (induction t and groups and groups1 r tot and g
       rule: num_labellings_num_list_of_group_labellings_num_list_of_group_labellings_loop_num_group_labellings.induct)
  case (1 t)
  then show ?case by (subst num_labellings.simps) auto
next
  case (2 groups)
  then show ?case by (subst num_list_of_group_labellings.simps) (auto simp: bindE_eq_Inr)
next
  case (3 remaining_leaves tot)
  then show ?case by auto
next
  case (4 g groups remaining_leaves tot)
  show ?case
  proof (intro allI impI)
    fix c assume t: "1 \<le> tot"
      and e: "num_list_of_group_labellings_loop (g # groups) remaining_leaves tot = Inr c"
    from e obtain g0 ngl where g0: "first g = Inr g0" and ngl: "num_group_labellings g = Inr ngl"
      and l: "num_list_of_group_labellings_loop groups (remaining_leaves - int (length g) * num_leaves g0)
                (tot * (comb remaining_leaves (int (length g) * num_leaves g0) * ngl)) = Inr c"
      by (auto simp: bindE_eq_Inr Let_def)
    have "1 \<le> ngl" using 4(1)[OF g0 refl refl refl] ngl by simp
    then have "1 \<le> tot * (comb remaining_leaves (int (length g) * num_leaves g0) * ngl)"
      using t by (intro int_mult_ge1 comb_pos)
    then show "1 \<le> c" using 4(2)[OF g0 refl refl refl ngl] l by simp
  qed
next
  case (5 g)
  show ?case
  proof (intro allI impI)
    fix c assume e: "num_group_labellings g = Inr c"
    from e obtain g0 nl na where g0: "first g = Inr g0" and nl: "num_labellings g0 = Inr nl"
      and na: "num_assignments_in_group g = Inr na" and c: "c = na * nl ^ length g"
      by (subst (asm) num_group_labellings.simps) (auto simp: bindE_eq_Inr Let_def)
    have "1 \<le> nl" using 5[OF g0] nl by simp
    then show "1 \<le> c" unfolding c
      using num_assignments_in_group_pos[OF na] by (intro int_mult_ge1 int_power_ge1)
  qed
qed

text \<open>
  \<^verbatim>\<open>num_list_of_group_labellings\<close> of a list of groups is the number of ways to
  choose the labels of the first group, times the labellings of that group, times the
  count for the remaining groups. \<open>group_size g\<close> is the term
  \<^verbatim>\<open>len(g) * g[0].num_leaves\<close> of the sum \<^verbatim>\<open>remaining_leaves\<close>.
\<close>

lemma num_list_loop_linear:
  "num_list_of_group_labellings_loop gs rem tot =
     bindE (num_list_of_group_labellings_loop gs rem 1) (\<lambda>c. Inr (tot * c))"
proof (induction gs arbitrary: rem tot)
  case Nil
  then show ?case by simp
next
  case (Cons g gs)
  show ?case
  proof (cases "first g")
    case (Inl e)
    then show ?thesis by simp
  next
    case (Inr g0)
    show ?thesis
    proof (cases "num_group_labellings g")
      case (Inl e)
      then show ?thesis using Inr by (simp add: Let_def)
    next
      case ngl: (Inr ngl)
      define r' where "r' = rem - int (length g) * num_leaves g0"
      define f where "f = comb rem (int (length g) * num_leaves g0) * ngl"
      have a: "num_list_of_group_labellings_loop (g # gs) rem tot =
               num_list_of_group_labellings_loop gs r' (tot * f)"
        using Inr ngl by (simp add: Let_def r'_def f_def)
      have b: "num_list_of_group_labellings_loop (g # gs) rem 1 =
               num_list_of_group_labellings_loop gs r' f"
        using Inr ngl by (simp add: Let_def r'_def f_def)
      show ?thesis unfolding a b
        by (subst Cons[of r' "tot * f"], subst Cons[of r' f])
           (cases "num_list_of_group_labellings_loop gs r' 1"; simp add: mult.assoc)
    qed
  qed
qed

definition group_size :: "'a rank_tree list \<Rightarrow> error + int" where
  "group_size g = bindE (first g) (\<lambda>g0. Inr (int (length g) * num_leaves g0))"

lemma num_list_Cons:
  assumes "num_list_of_group_labellings (g # gs) = Inr c"
  shows "\<exists>g0 ls ngl cr. first g = Inr g0 \<and> mapE group_size gs = Inr ls \<and>
           num_group_labellings g = Inr ngl \<and> num_list_of_group_labellings gs = Inr cr \<and>
           c = comb (int (length g) * num_leaves g0 + sum_list ls) (int (length g) * num_leaves g0) * ngl * cr"
proof -
  have gs_eq: "(\<lambda>g. bindE (first g) (\<lambda>g0. Inr (int (length g) * num_leaves g0))) = group_size"
    by (simp add: group_size_def fun_eq_iff)
  from assms obtain g0 ls where g0: "first g = Inr g0" and ls: "mapE group_size gs = Inr ls"
    and l: "num_list_of_group_labellings_loop (g # gs) (int (length g) * num_leaves g0 + sum_list ls) 1 = Inr c"
    by (subst (asm) num_list_of_group_labellings.simps) (auto simp: bindE_eq_Inr gs_eq group_size_def)
  from l obtain ngl where ngl: "num_group_labellings g = Inr ngl"
    and l2: "num_list_of_group_labellings_loop gs (sum_list ls)
              (comb (int (length g) * num_leaves g0 + sum_list ls) (int (length g) * num_leaves g0) * ngl) = Inr c"
    using g0 by (auto simp: bindE_eq_Inr Let_def)
  from l2 obtain cr where cr: "num_list_of_group_labellings_loop gs (sum_list ls) 1 = Inr cr"
    and c: "c = comb (int (length g) * num_leaves g0 + sum_list ls) (int (length g) * num_leaves g0) * ngl * cr"
    by (subst (asm) num_list_loop_linear) (auto simp: bindE_eq_Inr)
  have "num_list_of_group_labellings gs = Inr cr"
    by (subst num_list_of_group_labellings.simps) (simp add: gs_eq ls cr)
  then show ?thesis using g0 ls ngl c by blast
qed


text \<open>
  \<^verbatim>\<open>Combination.unrank\<close> returns a sublist of the elements, and fewer than \<open>k\<close> of
  them when the rank is not below \<^verbatim>\<open>comb(n, k)\<close>. The label lists that
  \<^verbatim>\<open>group_label_ranks\<close> and \<^verbatim>\<open>children_label_ranks\<close> hand out are sublists
  of the labels they are given, one for each child, and together not longer than
  these.
\<close>

lemma length_filter_mono:
  "(\<And>x. P x \<Longrightarrow> Q x) \<Longrightarrow> length (filter P l) \<le> length (filter Q l)"
  by (induction l) auto

lemma set_minus_subseq_length:
  "subseq s l \<Longrightarrow> length (set_minus l s) + length s \<le> length l"
proof (induction rule: list_emb.induct)
  case (list_emb_Nil ys)
  then show ?case by (simp add: set_minus_def)
next
  case (list_emb_Cons xs ys y)
  then show ?case by (auto simp: set_minus_def)
next
  case (list_emb_Cons2 x y xs ys)
  have "length (filter (\<lambda>z. z \<notin> set (x # xs)) ys) \<le> length (filter (\<lambda>z. z \<notin> set xs) ys)"
    by (rule length_filter_mono) simp
  then show ?case using list_emb_Cons2 by (simp add: set_minus_def)
qed

lemma Combination_unrank_length_le: "length (Combination_unrank r es k) \<le> length es"
  using Combination_unrank_subseq[of r es k] by (rule list_emb_length)

lemma Combination_unrank_short:
  "0 < k \<Longrightarrow> comb (int (length es)) (int k) \<le> r \<Longrightarrow> length (Combination_unrank r es k) < k"
proof (induction es arbitrary: r k)
  case Nil
  then show ?case by (simp add: Combination_unrank_Nil)
next
  case (Cons e es)
  obtain k' where k: "k = Suc k'" using Cons(2) by (cases k) auto
  show ?case
  proof (cases "k \<le> length es")
    case True
    have "comb (int (length (e # es))) (int k) =
          comb (int (length (e # es)) - 1) (int k - 1) + comb (int (length (e # es)) - 1) (int k)"
      using k True by (intro comb_pascal) auto
    then have p: "comb (int (length (e # es))) (int k) = comb (int (length es)) (int k') + comb (int (length es)) (int k)"
      using k by (simp add: add.commute)
    have "1 \<le> comb (int (length es)) (int k)" by (rule comb_pos)
    then have nl: "\<not> r < comb (int (length es)) (int k')" using Cons(3) p by simp
    have "comb (int (length es)) (int k) \<le> r - comb (int (length es)) (int k')" using Cons(3) p by simp
    then have "length (Combination_unrank (r - comb (int (length es)) (int k')) es k) < k"
      using Cons(1)[OF Cons(2)] by simp
    then show ?thesis using nl k by (simp add: Combination_unrank_Cons)
  next
    case False
    show ?thesis
    proof (cases "k = length (e # es)")
      case True
      then have "comb (int (length es)) (int k') = 1" "comb (int (length (e # es))) (int k) = 1"
        using k by simp_all
      then have nl: "\<not> r < comb (int (length es)) (int k')" using Cons(3) by simp
      have "length (Combination_unrank (r - comb (int (length es)) (int k')) es k) \<le> length es"
        by (rule Combination_unrank_length_le)
      then show ?thesis using nl k True by (simp add: Combination_unrank_Cons)
    next
      case False
      then have "length (e # es) < k" using \<open>\<not> k \<le> length es\<close> by simp
      then show ?thesis using Combination_unrank_length_le[of r "e # es" k] by simp
    qed
  qed
qed

lemma group_label_ranks_loop_lengths:
  "group_label_ranks_loop r g lbls cl clr = Inr (cl', clr') \<Longrightarrow>
   \<exists>new newr. cl' = cl @ new \<and> clr' = clr @ newr \<and> length new = length g \<and>
       length newr = length g \<and> length (concat new) \<le> length lbls"
proof (induction g arbitrary: r lbls cl clr)
  case Nil
  then show ?case by simp
next
  case (Cons t ts)
  from Cons(2) obtain r1 m cr k1 t_rank where
    m: "first lbls = Inr m"
    and l: "group_label_ranks_loop r1 ts (set_minus lbls (m # Combination_unrank cr (drop 1 lbls) k1))
              (cl @ [m # Combination_unrank cr (drop 1 lbls) k1]) (clr @ [t_rank]) = Inr (cl', clr')"
    by (auto simp: bindE_eq_Inr Let_def)
  define tl where "tl = m # Combination_unrank cr (drop 1 lbls) k1"
  obtain rest where lb: "lbls = m # rest" using m by (cases lbls) auto
  have sub: "subseq tl lbls"
    unfolding tl_def lb using Combination_unrank_subseq[of cr rest k1] by simp
  from Cons(1)[OF l[folded tl_def]] obtain new newr where
    n: "cl' = (cl @ [tl]) @ new" "clr' = (clr @ [t_rank]) @ newr" "length new = length ts"
       "length newr = length ts" "length (concat new) \<le> length (set_minus lbls tl)"
    by blast
  have "length (concat (tl # new)) \<le> length lbls"
    using n(5) set_minus_subseq_length[OF sub] by simp
  then show ?case using n(1-4)
    by (intro exI[of _ "tl # new"] exI[of _ "t_rank # newr"]) simp
qed

lemma children_label_ranks_loop_lengths:
  "children_label_ranks_loop gs r lbls cl clr = Inr (cl', clr') \<Longrightarrow>
   \<exists>new newr. cl' = cl @ new \<and> clr' = clr @ newr \<and> length new = length (concat gs) \<and>
       length newr = length (concat gs) \<and> length (concat new) \<le> length lbls"
proof (induction gs arbitrary: r lbls cl clr)
  case Nil
  then show ?case by simp
next
  case (Cons g gs)
  from Cons(2) obtain r1 cr gk g_rank gcl gcr where
    g: "group_label_ranks g_rank g (Combination_unrank cr lbls gk) = Inr (gcl, gcr)"
    and l: "children_label_ranks_loop gs r1 (set_minus lbls (Combination_unrank cr lbls gk))
              (cl @ gcl) (clr @ gcr) = Inr (cl', clr')"
    by (auto simp: bindE_eq_Inr Let_def)
  define gl where "gl = Combination_unrank cr lbls gk"
  have sub: "subseq gl lbls" unfolding gl_def by (rule Combination_unrank_subseq)
  from group_label_ranks_loop_lengths[OF g[unfolded group_label_ranks_def]]
  have gg: "length gcl = length g" "length gcr = length g" "length (concat gcl) \<le> length gl"
    by (auto simp: gl_def)
  from Cons(1)[OF l[folded gl_def]] obtain new newr where
    n: "cl' = (cl @ gcl) @ new" "clr' = (clr @ gcr) @ newr" "length new = length (concat gs)"
       "length newr = length (concat gs)" "length (concat new) \<le> length (set_minus lbls gl)"
    by blast
  have "length (concat (gcl @ new)) \<le> length lbls"
    using n(5) gg(3) set_minus_subseq_length[OF sub] by simp
  then show ?case using n(1-4) gg(1,2)
    by (intro exI[of _ "gcl @ new"] exI[of _ "gcr @ newr"]) simp
qed


text \<open>
  \<^verbatim>\<open>label_unrank\<close> returns only if it is given at least as many labels as the tree
  has leaves (a leaf asserts that it gets exactly one). With exactly as many labels
  and a rank that is not below the number of labellings, the first group of children
  gets too few labels, so the call does not return.
\<close>

lemma mapE_label_sum:
  fixes cs :: "'a rank_tree list" and cl :: "('b::linorder) list list"
  assumes "length cs = length clr" "length clr = length cl"
    and "mapE (\<lambda>(c, c_rank, c_labels). label_unrank_from c c_rank c_labels) (zip cs (zip clr cl)) = Inr lcs"
    and "\<And>c r (l :: 'b list) t'. c \<in> set cs \<Longrightarrow> label_unrank_from c r l = Inr t' \<Longrightarrow> num_leaves c \<le> int (length l)"
  shows "sum_list (map num_leaves cs) \<le> int (length (concat cl))"
  using assms
proof (induction cs clr cl arbitrary: lcs rule: list_induct3)
  case Nil
  then show ?case by simp
next
  case (Cons c cs r clr l cl)
  from Cons(4) obtain t' ts where t: "label_unrank_from c r l = Inr t'"
    and m: "mapE (\<lambda>(c, c_rank, c_labels). label_unrank_from c c_rank c_labels) (zip cs (zip clr cl)) = Inr ts"
    by (auto simp: bindE_eq_Inr)
  have "num_leaves c \<le> int (length l)" using Cons(5)[of c r l t'] t by simp
  moreover have "sum_list (map num_leaves cs) \<le> int (length (concat cl))"
    using Cons(3)[OF m] Cons(5) by auto
  ultimately show ?case by simp
qed

lemma label_unrank_from_needs_labels:
  fixes t :: "'a rank_tree" and lbls :: "('b::linorder) list"
  shows "wf_shape t \<Longrightarrow> label_unrank_from t lr lbls = Inr t' \<Longrightarrow> num_leaves t \<le> int (length lbls)"
proof (induction t arbitrary: lr lbls t')
  case (RankTree cs nl ls sr lrk)
  show ?case
  proof (cases "cs = []")
    case True
    then have "length lbls = 1" using RankTree(3)
      by (subst (asm) label_unrank_from.simps) (auto simp: bindE_eq_Inr is_leaf_def assertE_def split: if_splits)
    then show ?thesis using RankTree(2) True by simp
  next
    case False
    from RankTree(3) False obtain cl clr lcs where
      c: "children_label_ranks (group_children_by_shape cs) lr lbls = Inr (cl, clr)"
      and m: "mapE (\<lambda>(c, c_rank, c_labels). label_unrank_from c c_rank c_labels) (zip cs (zip clr cl)) = Inr lcs"
      by (subst (asm) label_unrank_from.simps) (auto simp: bindE_eq_Inr is_leaf_def Let_def)
    from children_label_ranks_loop_lengths[OF c[unfolded children_label_ranks_def]]
    have l: "length cl = length cs" "length clr = length cs" "length (concat cl) \<le> length lbls"
      by (auto simp: group_children_by_shape_def group_by_concat)
    have "sum_list (map num_leaves cs) \<le> int (length (concat cl))"
    proof (rule mapE_label_sum[OF _ _ m])
      show "length cs = length clr" "length clr = length cl" using l by simp_all
    next
      fix c r and l :: "'b list" and t'
      assume "c \<in> set cs" "label_unrank_from c r l = Inr t'"
      then show "num_leaves c \<le> int (length l)" using RankTree(1)[of c r l t'] RankTree(2) False by auto
    qed
    then show ?thesis using l(3) RankTree(2) False by simp
  qed
qed

lemma group_by_uniform:
  assumes "g \<in> set (group_by cs same_shape)" "c \<in> set g"
  shows "num_leaves c = num_leaves (hd g)"
proof -
  have "g \<noteq> []" using assms(1) by (rule group_by_nonempty)
  then have "c = hd g \<or> c \<in> set (tl g)" using assms(2) by (cases g) auto
  then show ?thesis using group_by_members[OF assms(1)] by (auto simp: same_shape_def)
qed

lemma uniform_sum:
  "\<forall>c\<in>set g. num_leaves c = k \<Longrightarrow> sum_list (map num_leaves g) = int (length g) * k"
  by (induction g) (auto simp: algebra_simps)

lemma group_size_sum:
  "\<forall>g\<in>set gs. \<forall>c\<in>set g. num_leaves c = num_leaves (hd g) \<Longrightarrow> mapE group_size gs = Inr ls \<Longrightarrow>
   sum_list ls = sum_list (map num_leaves (concat gs))"
proof (induction gs arbitrary: ls)
  case Nil
  then show ?case by simp
next
  case (Cons g gs)
  from Cons(3) obtain v ls' where v: "group_size g = Inr v" and ls': "mapE group_size gs = Inr ls'"
    and lv: "ls = v # ls'"
    by (auto simp: bindE_eq_Inr)
  from v obtain g0 where g0: "first g = Inr g0" and v2: "v = int (length g) * num_leaves g0"
    by (auto simp: bindE_eq_Inr group_size_def)
  have ls: "ls = int (length g) * num_leaves g0 # ls'" using lv v2 by simp
  have h: "g0 = hd g" using g0 by (cases g) auto
  have "sum_list (map num_leaves g) = int (length g) * num_leaves g0"
    using Cons(2) h by (intro uniform_sum) simp
  moreover have "sum_list ls' = sum_list (map num_leaves (concat gs))"
    using Cons(1)[OF _ ls'] Cons(2) by simp
  ultimately show ?case using ls by simp
qed

lemma label_unrank_from_rank_bound:
  fixes t :: "'a rank_tree" and lbls :: "('b::linorder) list"
  assumes wf: "wf_shape t" and nl: "num_labellings t = Inr c" and le: "c \<le> lr"
    and len: "int (length lbls) = num_leaves t"
  shows "label_unrank_from t lr lbls \<noteq> Inr t'"
proof
  assume ok: "label_unrank_from t lr lbls = Inr t'"
  obtain cs n ls sr lrk where t: "t = RankTree cs n ls sr lrk" by (cases t)
  show False
  proof (cases "cs = []")
    case True
    have "c = 1" using nl True t by (subst (asm) num_labellings.simps) (simp add: is_leaf_def)
    moreover have "lr = 0" using ok True t
      by (subst (asm) label_unrank_from.simps) (auto simp: bindE_eq_Inr is_leaf_def assertE_def split: if_splits)
    ultimately show False using le by simp
  next
    case False
    then obtain x xs where cs: "cs = x # xs" by (cases cs) auto
    define g1 where "g1 = x # takeWhile (\<lambda>y. same_shape y x) xs"
    define rest where "rest = group_by (dropWhile (\<lambda>y. same_shape y x) xs) same_shape"
    have gs: "group_children_by_shape cs = g1 # rest"
      by (simp add: group_children_by_shape_def cs group_by_Cons g1_def rest_def)
    have cc: "cs = g1 @ concat rest"
      using group_by_concat[of cs same_shape] gs by (simp add: group_children_by_shape_def)
    have uni: "\<forall>g\<in>set (g1 # rest). \<forall>c\<in>set g. num_leaves c = num_leaves (hd g)"
      using group_by_uniform[of _ cs] gs by (simp add: group_children_by_shape_def)
    have wfc: "\<forall>c\<in>set cs. wf_shape c" and n: "n = sum_list (map num_leaves cs)"
      using wf t False by auto
    have "num_list_of_group_labellings (g1 # rest) = Inr c"
      using nl t False gs by (subst (asm) num_labellings.simps) (simp add: is_leaf_def)
    from num_list_Cons[OF this] obtain g0 sizes ngl cr where
      g0: "first g1 = Inr g0" and sizes: "mapE group_size rest = Inr sizes"
      and ngl: "num_group_labellings g1 = Inr ngl" and cr: "num_list_of_group_labellings rest = Inr cr"
      and c: "c = comb (int (length g1) * num_leaves g0 + sum_list sizes) (int (length g1) * num_leaves g0) * ngl * cr"
      by blast
    have g0x: "g0 = x" using g0 by (simp add: g1_def)
    define k where "k = num_leaves g0"
    have k1: "1 \<le> k" using wfc wf_shape_pos[of x] cs g0x k_def by simp
    have s1: "sum_list (map num_leaves g1) = int (length g1) * k"
      using uni g0x unfolding k_def by (intro uniform_sum) (simp add: g1_def)
    have s2: "sum_list sizes = sum_list (map num_leaves (concat rest))"
      using uni sizes by (intro group_size_sum) simp_all
    have N: "int (length g1) * k + sum_list sizes = int (length lbls)"
      using len t n s1 s2 cc by (metis map_append rank_tree.sel(2) sum_list_append)
    have pos: "1 \<le> ngl * cr"
      using num_labellings_pos(4)[of g1] num_labellings_pos(2)[of rest] ngl cr by (intro int_mult_ge1) auto
    from ok False t gs obtain cl clr lcs where
      c1: "children_label_ranks_loop (g1 # rest) lr lbls [] [] = Inr (cl, clr)"
      and m: "mapE (\<lambda>(c, c_rank, c_labels). label_unrank_from c c_rank c_labels) (zip cs (zip clr cl)) = Inr lcs"
      by (subst (asm) label_unrank_from.simps)
         (auto simp: bindE_eq_Inr is_leaf_def Let_def children_label_ranks_def)
    define gk where "gk = nat (k * int (length g1))"
    define gl where "gl = Combination_unrank (lr div (ngl * cr)) lbls gk"
    from c1 obtain g_rank gcl gcr r1 where
      g: "group_label_ranks g_rank g1 gl = Inr (gcl, gcr)"
      and l: "children_label_ranks_loop rest r1 (set_minus lbls gl) gcl gcr = Inr (cl, clr)"
      using g0 ngl cr
      by (auto simp: bindE_eq_Inr Let_def floordiv_def unrank_size_def k_def gk_def gl_def split: if_splits)
    have gkpos: "0 < gk" "int gk = int (length g1) * k"
      using k1 by (simp_all add: gk_def g1_def mult.commute)
    define d where "d = ngl * cr"
    have dpos: "1 \<le> d" using pos by (simp add: d_def)
    have "comb (int (length lbls)) (int gk) * d \<le> lr"
      using le c N gkpos(2) by (simp add: k_def d_def mult.assoc)
    then have "(comb (int (length lbls)) (int gk) * d) div d \<le> lr div d"
      using dpos by (intro zdiv_mono1) simp_all
    then have "comb (int (length lbls)) (int gk) \<le> lr div d" using dpos by simp
    then have "comb (int (length lbls)) (int gk) \<le> lr div (ngl * cr)" by (simp add: d_def)
    then have short: "length gl < gk" unfolding gl_def by (intro Combination_unrank_short gkpos(1))
    from group_label_ranks_loop_lengths[OF g[unfolded group_label_ranks_def]]
    have gg: "length gcl = length g1" "length gcr = length g1" "length (concat gcl) \<le> length gl"
      by auto
    from children_label_ranks_loop_lengths[OF l] obtain new newr where
      nn: "cl = gcl @ new" "clr = gcr @ newr" "length new = length (concat rest)" "length newr = length (concat rest)"
      by blast
    have z: "zip cs (zip clr cl) = zip g1 (zip gcr gcl) @ zip (concat rest) (zip newr new)"
      unfolding cc nn using gg nn(3,4) by simp
    from mapE_append_Inr[OF m[unfolded z]] obtain zs1 where
      m1: "mapE (\<lambda>(c, c_rank, c_labels). label_unrank_from c c_rank c_labels) (zip g1 (zip gcr gcl)) = Inr zs1"
      by blast
    have "sum_list (map num_leaves g1) \<le> int (length (concat gcl))"
    proof (rule mapE_label_sum[OF _ _ m1])
      show "length g1 = length gcr" "length gcr = length gcl" using gg by simp_all
    next
      fix c r and l :: "'b list" and t'
      assume "c \<in> set g1" "label_unrank_from c r l = Inr t'"
      moreover have "set g1 \<subseteq> set cs" using cc by auto
      ultimately show "num_leaves c \<le> int (length l)"
        using label_unrank_from_needs_labels[of c r l t'] wfc by auto
    qed
    then show False using s1 gg(3) short gkpos(2) by linarith
  qed
qed


text \<open>
  The module's function \<^verbatim>\<open>num_labellings(shape_rk, n)\<close> is
  \<open>num_labellings_shape\<close>. \<open>assert_or_index r\<close>: if \<open>r\<close> is an exception, it is an
  \<^verbatim>\<open>AssertionError\<close> or an \<^verbatim>\<open>IndexError\<close>. On a tree of \<^verbatim>\<open>shape_unrank\<close>
  no division by zero and no other exception occurs in \<^verbatim>\<open>label_unrank\<close>.
\<close>

definition num_labellings_shape :: "int \<Rightarrow> int \<Rightarrow> error + int" where
  "num_labellings_shape shape_rk n = bindE (shape_unrank shape_rk n) num_labellings"

definition assert_or_index :: "error + 'a \<Rightarrow> bool" where
  "assert_or_index r = (\<forall>e. r = Inl e \<longrightarrow> e = AssertionError \<or> e = IndexError)"

named_theorems ai_intros

lemma ai_Inr [ai_intros]: "assert_or_index (Inr v)"
  by (simp add: assert_or_index_def)

lemma ai_Inl [ai_intros]: "assert_or_index (Inl AssertionError)" "assert_or_index (Inl IndexError)"
  by (simp_all add: assert_or_index_def)

lemma ai_bindE [ai_intros]:
  "assert_or_index m \<Longrightarrow> (\<And>v. m = Inr v \<Longrightarrow> assert_or_index (f v)) \<Longrightarrow> assert_or_index (bindE m f)"
  by (cases m) (auto simp: assert_or_index_def)

lemma ai_mapE [ai_intros]:
  "(\<And>x. x \<in> set xs \<Longrightarrow> assert_or_index (f x)) \<Longrightarrow> assert_or_index (mapE f xs)"
  by (induction xs) (auto intro!: ai_intros)

lemma ai_first [ai_intros]: "assert_or_index (first xs)"
  by (cases xs) (auto intro: ai_intros)

lemma ai_assertE [ai_intros]: "assert_or_index (assertE b)"
  by (auto simp: assertE_def intro: ai_intros)

lemma ai_floordiv: "b \<noteq> 0 \<Longrightarrow> assert_or_index (floordiv a b)"
  by (auto simp: floordiv_def intro: ai_intros)

lemma ai_pymod: "b \<noteq> 0 \<Longrightarrow> assert_or_index (pymod a b)"
  by (auto simp: pymod_def intro: ai_intros)

lemma ai_unrank_size: "0 \<le> k \<Longrightarrow> assert_or_index (unrank_size k)"
  by (auto simp: unrank_size_def intro: ai_intros)

lemma ai_num_assignments_in_group:
  "\<forall>c\<in>set g. 1 \<le> num_leaves c \<Longrightarrow> assert_or_index (num_assignments_in_group g)"
  by (auto simp: num_assignments_in_group_def Let_def py_range_def intro!: ai_intros dest!: first_in)

lemma ai_num_labellings:
  fixes t :: "'a rank_tree" and groups groups1 :: "'a rank_tree list list" and g :: "'a rank_tree list"
  shows "wf_shape t \<longrightarrow> assert_or_index (num_labellings t)"
  "(\<forall>g\<in>set groups. \<forall>c\<in>set g. wf_shape c) \<longrightarrow> assert_or_index (num_list_of_group_labellings groups)"
  "(\<forall>g\<in>set groups1. \<forall>c\<in>set g. wf_shape c) \<longrightarrow> assert_or_index (num_list_of_group_labellings_loop groups1 r tot)"
  "(\<forall>c\<in>set g. wf_shape c) \<longrightarrow> assert_or_index (num_group_labellings g)"
proof (induction t and groups and groups1 r tot and g
       rule: num_labellings_num_list_of_group_labellings_num_list_of_group_labellings_loop_num_group_labellings.induct)
  case (1 t)
  show ?case
  proof
    assume wf: "wf_shape t"
    show "assert_or_index (num_labellings t)"
    proof (cases "is_leaf t")
      case True
      then show ?thesis by (subst num_labellings.simps) (auto intro: ai_intros)
    next
      case False
      have "\<forall>c\<in>set (children t). wf_shape c" using wf False by (cases t) (auto simp: is_leaf_def)
      then have "\<forall>g\<in>set (group_children_by_shape (children t)). \<forall>c\<in>set g. wf_shape c"
        using group_by_subset[of _ "children t" same_shape] by (auto simp: group_children_by_shape_def)
      then show ?thesis using 1[OF False] False by (subst num_labellings.simps) simp
    qed
  qed
next
  case (2 groups)
  then show ?case by (subst num_list_of_group_labellings.simps) (auto intro!: ai_intros)
next
  case (3 remaining_leaves tot)
  then show ?case by (auto intro!: ai_intros)
next
  case (4 g groups remaining_leaves tot)
  then show ?case by (auto intro!: ai_intros simp: Let_def)
next
  case (5 g)
  show ?case
  proof
    assume wf: "\<forall>c\<in>set g. wf_shape c"
    then have "\<forall>c\<in>set g. 1 \<le> num_leaves c" using wf_shape_pos by blast
    then have "assert_or_index (num_assignments_in_group g)" by (rule ai_num_assignments_in_group)
    then show "assert_or_index (num_group_labellings g)"
      using 5 wf by (subst num_group_labellings.simps) (auto intro!: ai_intros simp: Let_def dest: first_in)
  qed
qed


lemma ai_group_label_ranks_loop:
  "\<forall>c\<in>set g. wf_shape c \<Longrightarrow> assert_or_index (group_label_ranks_loop r g lbls cl clr)"
proof (induction g arbitrary: r lbls cl clr)
  case Nil
  then show ?case by (auto intro: ai_intros)
next
  case (Cons t ts)
  have k: "1 \<le> num_leaves t" "\<forall>c\<in>set ts. 1 \<le> num_leaves c" using Cons(2) wf_shape_pos by auto
  have a: "assert_or_index (num_labellings t)" using ai_num_labellings(1)[of t] Cons(2) by simp
  have b: "assert_or_index (num_assignments_in_group ts)" using k(2) by (rule ai_num_assignments_in_group)
  have nz: "y * (na * y ^ length ts) \<noteq> 0 \<and> na * y ^ length ts \<noteq> 0"
    if "num_labellings t = Inr y" "num_assignments_in_group ts = Inr na" for y na
  proof -
    have "1 \<le> y" "1 \<le> na" using that num_labellings_pos(1)[of t] num_assignments_in_group_pos by auto
    then have "1 \<le> na * y ^ length ts" "1 \<le> y * (na * y ^ length ts)"
      by (auto intro!: int_mult_ge1 int_power_ge1)
    then show ?thesis by auto
  qed
  show ?case
    using a b k(1) Cons(1) Cons(2)
    by (auto intro!: ai_intros ai_floordiv ai_pymod ai_unrank_size simp: Let_def dest: nz)
qed

lemma ai_children_label_ranks_loop:
  "\<forall>g\<in>set gs. \<forall>c\<in>set g. wf_shape c \<Longrightarrow> assert_or_index (children_label_ranks_loop gs r lbls cl clr)"
proof (induction gs arbitrary: r lbls cl clr)
  case Nil
  then show ?case by (auto intro: ai_intros)
next
  case (Cons g gs)
  have a: "assert_or_index (num_group_labellings g)" using ai_num_labellings(4)[of g] Cons(2) by simp
  have b: "assert_or_index (num_list_of_group_labellings gs)" using ai_num_labellings(2)[of gs] Cons(2) by simp
  have c: "assert_or_index (group_label_ranks gr g gl)" for gr and gl :: "'b list"
    unfolding group_label_ranks_def using Cons(2) by (intro ai_group_label_ranks_loop) simp
  have nz: "ngl * cr \<noteq> 0 \<and> cr \<noteq> 0"
    if "num_group_labellings g = Inr ngl" "num_list_of_group_labellings gs = Inr cr" for ngl cr
  proof -
    have "1 \<le> ngl" "1 \<le> cr" using that num_labellings_pos(4)[of g] num_labellings_pos(2)[of gs] by auto
    then have "1 \<le> ngl * cr" by (intro int_mult_ge1)
    then show ?thesis using \<open>1 \<le> cr\<close> by auto
  qed
  have k: "0 \<le> num_leaves g0 * int (length g)" if "first g = Inr g0" for g0
  proof -
    have "g0 \<in> set g" using that by (rule first_in)
    then have "1 \<le> num_leaves g0" using Cons(2) wf_shape_pos by auto
    then show ?thesis by simp
  qed
  show ?case
    using a b c Cons(1) Cons(2)
    by (auto intro!: ai_intros ai_floordiv ai_pymod ai_unrank_size simp: Let_def dest: nz k)
qed

lemma RankTree_leaf_None: "RankTree_leaf None lr l = Inr (RankTree [] 1 [l] 0 lr)"
  by (simp add: RankTree_leaf_def compute_shape_rank_def partition_eq group_children_by_num_leaves_def
        group_by_def asc_from_single)

lemma ai_label_unrank_from:
  fixes t :: "'a rank_tree" and lbls :: "('b::linorder) list"
  shows "wf_shape t \<Longrightarrow> assert_or_index (label_unrank_from t lr lbls)"
proof (induction t arbitrary: lr lbls)
  case (RankTree cs nl ls sr lrk)
  show ?case
  proof (cases "cs = []")
    case True
    then show ?thesis
      by (subst label_unrank_from.simps) (auto simp: is_leaf_def RankTree_leaf_None intro!: ai_intros)
  next
    case False
    have wfc: "\<forall>c\<in>set cs. wf_shape c" using RankTree(2) False by simp
    then have "\<forall>g\<in>set (group_children_by_shape cs). \<forall>c\<in>set g. wf_shape c"
      using group_by_subset[of _ cs same_shape] by (auto simp: group_children_by_shape_def)
    then have a: "assert_or_index (children_label_ranks (group_children_by_shape cs) lr lbls)"
      unfolding children_label_ranks_def by (rule ai_children_label_ranks_loop)
    have b: "assert_or_index (label_unrank_from c r l)" if "c \<in> set cs" for c r and l :: "'b list"
      using RankTree(1)[OF that] wfc that by simp
    show ?thesis
      using a False
      by (subst label_unrank_from.simps)
         (auto simp: is_leaf_def Let_def RankTree_node_def intro!: ai_intros b dest: set_zip_leftD)
  qed
qed

lemma shape_unrank_out_of_range:
  assumes "num_shapes n = Inr S" "S \<le> sr"
  shows "shape_unrank sr n = Inl AssertionError"
proof (cases "n = 1")
  case True
  then have "S = 1" using assms(1) by (simp add: num_shapes.simps)
  then show ?thesis using True assms(2) by (subst shape_unrank.simps) (simp add: assertE_def)
next
  case False
  have "children_shape_ranks sr n = Inl AssertionError"
    using assms by (auto simp: children_shape_ranks_def assertE_def)
  then show ?thesis using False by (subst shape_unrank.simps) simp
qed

text \<open>
  Claim C5. \<^verbatim>\<open>RankTree.unrank((shape_rank, label_rank), num_leaves)\<close> fails when
  \<open>shape_rank \<ge> num_shapes(num_leaves)\<close>: the assertion of \<^verbatim>\<open>shape_unrank\<close>
  (one leaf) or of \<^verbatim>\<open>children_shape_ranks\<close> raises \<^verbatim>\<open>AssertionError\<close>, for
  every \<open>num_leaves\<close> and every \<open>label_rank\<close>. It also fails when the shape rank
  selects a shape and \<open>label_rank\<close> is not below the number of labellings of that
  shape, \<^verbatim>\<open>num_labellings(shape_rank, num_leaves)\<close>: then the call ends in an
  \<^verbatim>\<open>AssertionError\<close> (at a leaf) or an \<^verbatim>\<open>IndexError\<close> (a list of labels runs
  out), and no tree is returned.
\<close>

theorem C5_unrank_out_of_range:
  "(\<forall>S. num_shapes n = Inr S \<and> S \<le> sr \<longrightarrow> RankTree_unrank (sr, lr) n = Inl AssertionError) \<and>
   (\<forall>c. num_labellings_shape sr n = Inr c \<and> c \<le> lr \<longrightarrow>
      RankTree_unrank (sr, lr) n = Inl AssertionError \<or> RankTree_unrank (sr, lr) n = Inl IndexError)"
proof (intro conjI allI impI)
  fix S assume "num_shapes n = Inr S \<and> S \<le> sr"
  then show "RankTree_unrank (sr, lr) n = Inl AssertionError"
    using shape_unrank_out_of_range[of n S sr] by (simp add: RankTree_unrank_def)
next
  fix c assume a: "num_labellings_shape sr n = Inr c \<and> c \<le> lr"
  then obtain t where t: "shape_unrank sr n = Inr t" and nl: "num_labellings t = Inr c"
    by (auto simp: num_labellings_shape_def bindE_eq_Inr)
  have wf: "wf_shape t" using shape_unrank_wf[OF t] by simp
  have len: "int (length [0 .. num_leaves t - 1]) = num_leaves t"
    using wf_shape_pos[OF wf] by simp
  have u: "RankTree_unrank (sr, lr) n = label_unrank_from t lr [0 .. num_leaves t - 1]"
    using t by (simp add: RankTree_unrank_def label_unrank_def)
  have "\<forall>t'. label_unrank_from t lr [0 .. num_leaves t - 1] \<noteq> Inr t'"
    using label_unrank_from_rank_bound[OF wf nl _ len] a by blast
  moreover have "assert_or_index (label_unrank_from t lr [0 .. num_leaves t - 1])"
    using wf by (rule ai_label_unrank_from)
  ultimately show "RankTree_unrank (sr, lr) n = Inl AssertionError \<or> RankTree_unrank (sr, lr) n = Inl IndexError"
    unfolding u assert_or_index_def by (cases "label_unrank_from t lr [0 .. num_leaves t - 1]") auto
qed

theorem C5_unrank_out_of_range_witness:
  "(num_shapes 3 = Inr 2 \<and> (2::int) \<le> 2) \<and> RankTree_unrank (2, 0) 3 = Inl AssertionError \<and>
   (num_labellings_shape 1 3 = Inr 3 \<and> (3::int) \<le> 3) \<and>
   (RankTree_unrank (1, 3) 3 = Inl AssertionError \<or> RankTree_unrank (1, 3) 3 = Inl IndexError) \<and>
   RankTree_unrank (1, 3) 3 = Inl IndexError"
proof -
  have h1: "num_shapes 3 = Inr 2 \<and> (2::int) \<le> 2" by code_simp
  have h2: "num_labellings_shape 1 3 = Inr 3 \<and> (3::int) \<le> 3" by code_simp
  have v: "RankTree_unrank (1, 3) 3 = Inl IndexError" by code_simp
  have "RankTree_unrank (2, 0) 3 = Inl AssertionError"
    using C5_unrank_out_of_range[of 3 2 0] h1 by blast
  moreover have "RankTree_unrank (1, 3) 3 = Inl AssertionError \<or> RankTree_unrank (1, 3) 3 = Inl IndexError"
    using C5_unrank_out_of_range[of 3 1 3] h2 by blast
  ultimately show ?thesis using h1 h2 v by blast
qed

subsection \<open>Shape rank and shape equality\<close>

text \<open>
  \<open>grouped eq gs\<close>: the list of groups \<open>gs\<close> is what \<^verbatim>\<open>group_by\<close> makes of its
  concatenation. The value of \<^verbatim>\<open>num_tree_pairings\<close> is at least \<open>1\<close>, and for a
  grouped partition it is the product over the groups.
\<close>



lemma group_by_map:
  "group_by (map f xs) (\<lambda>a b. a = b) = map (map f) (group_by xs (\<lambda>a b. f a = f b))"
proof (induction "length xs" arbitrary: xs rule: less_induct)
  case less
  show ?case
  proof (cases xs)
    case Nil
    then show ?thesis by simp
  next
    case (Cons x xs')
    have "length (dropWhile (\<lambda>y. f y = f x) xs') < length xs"
      using Cons length_dropWhile_le[of "\<lambda>y. f y = f x" xs'] by simp
    then have "group_by (map f (dropWhile (\<lambda>y. f y = f x) xs')) (\<lambda>a b. a = b) =
               map (map f) (group_by (dropWhile (\<lambda>y. f y = f x) xs') (\<lambda>a b. f a = f b))"
      by (rule less)
    then show ?thesis
      using Cons by (simp add: group_by_Cons takeWhile_map dropWhile_map comp_def)
  qed
qed

definition grouped :: "('a \<Rightarrow> 'a \<Rightarrow> bool) \<Rightarrow> 'a list list \<Rightarrow> bool" where
  "grouped eq gs = (group_by (concat gs) eq = gs)"


lemma grouped_Nil [simp]: "grouped eq []"
  by (simp add: grouped_def)



lemma num_tree_pairings_val_Nil [simp]: "num_tree_pairings_val [] = 1"
  by (simp add: num_tree_pairings_val_eq group_partition_def)



lemma grouped_map:
  "grouped (\<lambda>a b. f a = f b) gs \<Longrightarrow> grouped (\<lambda>a b. a = b) (map (map f) gs)"
  unfolding grouped_def using group_by_map[of f "concat gs"] by (simp add: map_concat)























lemma sig_groups_grouped: "grouped (\<lambda>a b. fst a = fst b) pgs \<Longrightarrow> grouped (\<lambda>a b. a = b) (map (map fst) pgs)"
  by (rule grouped_map)













lemma is_canonical_leaf: "children t = [] \<Longrightarrow> is_canonical t = Inr True"
  by (subst is_canonical.simps) (simp add: is_leaf_def)







text \<open>
  The shape rank of a canonical tree with \<open>n\<close> leaves lies in
  \<open>[0, num_shapes(n))\<close>, and it is the sum of \<open>prior_sum\<close> for the partition of the
  children and of \<open>within_sig\<close> for their pairs.
\<close>

lemma num_shapes_val_1 [simp]: "num_shapes_val 1 = 1"
  by (simp add: num_shapes_val_eq)

















end
